theory Spec2Isabelle
  imports Main
begin

section \<open>JavaScript numbers\<close>

text \<open>
  The timer keeps every duration and every elapsed time in a JavaScript number.  The values
  that occur are integers (seconds), the sentinel \<open>Infinity\<close> that marks an unbounded
  duration, and what arithmetic makes of them: \<open>-Infinity\<close> and \<open>NaN\<close>.  Integers are
  unbounded here (the rounding of doubles beyond \<open>2^53\<close> is not modelled) and there is one
  zero.
\<close>

datatype jsnum = Num int | PosInfinity | NegInfinity | NaN

fun jneg :: "jsnum \<Rightarrow> jsnum" where
  "jneg (Num a) = Num (- a)"
| "jneg PosInfinity = NegInfinity"
| "jneg NegInfinity = PosInfinity"
| "jneg NaN = NaN"

fun jadd :: "jsnum \<Rightarrow> jsnum \<Rightarrow> jsnum" where
  "jadd (Num a) (Num b) = Num (a + b)"
| "jadd NaN y = NaN"
| "jadd x NaN = NaN"
| "jadd PosInfinity NegInfinity = NaN"
| "jadd NegInfinity PosInfinity = NaN"
| "jadd PosInfinity y = PosInfinity"
| "jadd x PosInfinity = PosInfinity"
| "jadd NegInfinity y = NegInfinity"
| "jadd x NegInfinity = NegInfinity"

definition jsub :: "jsnum \<Rightarrow> jsnum \<Rightarrow> jsnum" where
  "jsub x y = jadd x (jneg y)"

text \<open>\<open>x < y\<close>; every comparison with \<open>NaN\<close> is false.\<close>

fun jlt :: "jsnum \<Rightarrow> jsnum \<Rightarrow> bool" where
  "jlt (Num a) (Num b) = (a < b)"
| "jlt NaN y = False"
| "jlt x NaN = False"
| "jlt x NegInfinity = False"
| "jlt PosInfinity y = False"
| "jlt NegInfinity y = True"
| "jlt x PosInfinity = True"

text \<open>\<open>Math.min\<close> and \<open>Math.max\<close>: \<open>NaN\<close> as soon as one argument is.\<close>

definition jmin :: "jsnum \<Rightarrow> jsnum \<Rightarrow> jsnum" where
  "jmin x y = (if x = NaN \<or> y = NaN then NaN else if jlt y x then y else x)"

definition jmax :: "jsnum \<Rightarrow> jsnum \<Rightarrow> jsnum" where
  "jmax x y = (if x = NaN \<or> y = NaN then NaN else if jlt x y then y else x)"

text \<open>\<open>x * 60\<close>, \<open>Math.floor(x / 60)\<close> and \<open>x % 60\<close> (the remainder has the sign of \<open>x\<close>).\<close>

fun jtimes60 :: "jsnum \<Rightarrow> jsnum" where
  "jtimes60 (Num a) = Num (a * 60)"
| "jtimes60 x = x"

fun jfloorDiv60 :: "jsnum \<Rightarrow> jsnum" where
  "jfloorDiv60 (Num a) = Num (a div 60)"
| "jfloorDiv60 x = x"

fun jrem60 :: "jsnum \<Rightarrow> jsnum" where
  "jrem60 (Num a) = Num (if 0 \<le> a then a mod 60 else - ((- a) mod 60))"
| "jrem60 x = NaN"

text \<open>\<open>x || 0\<close>: the falsy numbers are \<open>0\<close> and \<open>NaN\<close>.\<close>

definition orZero :: "jsnum \<Rightarrow> jsnum" where
  "orZero x = (if x = Num 0 \<or> x = NaN then Num 0 else x)"

section \<open>Strings\<close>

text \<open>The decimal numeral a template literal prints for an integer.\<close>

fun showNat :: "nat \<Rightarrow> string" where
  "showNat n =
     (if n < 10 then [char_of (48 + n)]
      else showNat (n div 10) @ [char_of (48 + n mod 10)])"

declare showNat.simps [simp del]

definition showInt :: "int \<Rightarrow> string" where
  "showInt i = (if i < 0 then CHR ''-'' # showNat (nat (- i)) else showNat (nat i))"

text \<open>\<open>s.startsWith(p)\<close> and \<open>s.includes(p)\<close>.\<close>

fun startsWith :: "string \<Rightarrow> string \<Rightarrow> bool" where
  "startsWith s [] = True"
| "startsWith [] (p # ps) = False"
| "startsWith (c # cs) (p # ps) = (c = p \<and> startsWith cs ps)"

fun includesStr :: "string \<Rightarrow> string \<Rightarrow> bool" where
  "includesStr [] p = (p = [])"
| "includesStr (c # cs) p = (startsWith (c # cs) p \<or> includesStr cs p)"

section \<open>Data model\<close>

datatype kind = Opening | Direct | Cross | Redirect | Recross | Closing | Rebuttal | End

datatype side = Plaintiff | Defense

text \<open>The \<open>trialConfig\<close> state object; durations in seconds.\<close>

record config =
  pOpeningDuration :: int
  dOpeningDuration :: int
  pOverallDirectDuration :: int
  dOverallCrossDuration :: int
  dOverallDirectDuration :: int
  pOverallCrossDuration :: int
  pClosingDuration :: int
  dClosingDuration :: int
  maxRebuttalDuration :: int
  plaintiffWitnessCount :: int
  defenseWitnessCount :: int
  showTotalSideTimes :: bool

text \<open>
  A segment object.  The fields \<open>id\<close>, \<open>type\<close> and \<open>name\<close> of the source are \<open>segId\<close>,
  \<open>segType\<close> and \<open>segName\<close>.  A field the object literal leaves out reads \<open>undefined\<close>:
  \<open>side\<close> and \<open>witnessIndex\<close> are options, and \<open>isConditional\<close>, which the source only
  tests for truth, is \<open>False\<close> where it is absent.
\<close>

record segment =
  segId :: int
  segType :: kind
  side :: "side option"
  witnessIndex :: "int option"
  segName :: string
  duration :: jsnum
  isConditional :: bool
  actualElapsed :: jsnum

section \<open>Timeline generator\<close>

text \<open>
  \<open>generateAllTrialSegments\<close> appends to \<open>segments\<close> and numbers the objects with
  \<open>idCounter++\<close>; the pair below is (\<open>segments\<close>, \<open>idCounter\<close>).
\<close>

type_synonym genState = "segment list \<times> int"

definition push :: "(int \<Rightarrow> segment) \<Rightarrow> genState \<Rightarrow> genState" where
  "push mk g = (fst g @ [mk (snd g)], snd g + 1)"

definition fixedSegment :: "kind \<Rightarrow> side \<Rightarrow> string \<Rightarrow> jsnum \<Rightarrow> int \<Rightarrow> segment" where
  "fixedSegment t s n dur k =
     \<lparr>segId = k, segType = t, side = Some s, witnessIndex = None, segName = n,
      duration = dur, isConditional = False, actualElapsed = Num 0\<rparr>"

definition examSegment ::
  "kind \<Rightarrow> side \<Rightarrow> string \<Rightarrow> string \<Rightarrow> bool \<Rightarrow> int \<Rightarrow> int \<Rightarrow> segment" where
  "examSegment t s pre suf c i k =
     \<lparr>segId = k, segType = t, side = Some s, witnessIndex = Some i,
      segName = pre @ showInt (i + 1) @ suf,
      duration = PosInfinity, isConditional = c, actualElapsed = Num 0\<rparr>"

definition endSegment :: "int \<Rightarrow> segment" where
  "endSegment k =
     \<lparr>segId = k, segType = End, side = None, witnessIndex = None, segName = ''Trial Ended'',
      duration = Num 0, isConditional = False, actualElapsed = Num 0\<rparr>"

text \<open>The body of the loop over the plaintiff's witnesses, and of the one over the defense's.\<close>

definition plaintiffWitnessBody :: "int \<Rightarrow> genState \<Rightarrow> genState" where
  "plaintiffWitnessBody i g =
     push (examSegment Recross Defense ''P Witness '' '' - Recross'' True i)
    (push (examSegment Redirect Plaintiff ''P Witness '' '' - Redirect'' True i)
    (push (examSegment Cross Defense ''P Witness '' '' - Cross'' False i)
    (push (examSegment Direct Plaintiff ''P Witness '' '' - Direct'' False i) g)))"

definition defenseWitnessBody :: "int \<Rightarrow> genState \<Rightarrow> genState" where
  "defenseWitnessBody i g =
     push (examSegment Recross Plaintiff ''D Witness '' '' - Recross'' True i)
    (push (examSegment Redirect Defense ''D Witness '' '' - Redirect'' True i)
    (push (examSegment Cross Plaintiff ''D Witness '' '' - Cross'' False i)
    (push (examSegment Direct Defense ''D Witness '' '' - Direct'' False i) g)))"

text \<open>\<open>for (let i = 0; i < n; i++) body(i)\<close>: no round when \<open>n \<le> 0\<close>.\<close>

definition forUpTo :: "int \<Rightarrow> (int \<Rightarrow> genState \<Rightarrow> genState) \<Rightarrow> genState \<Rightarrow> genState" where
  "forUpTo n body g = fold body (map int [0..<nat n]) g"

definition generateAllTrialSegments :: "config \<Rightarrow> segment list" where
  "generateAllTrialSegments cfg =
    (let g1 = push (fixedSegment Opening Plaintiff ''Plaintiff Opening''
                      (Num (pOpeningDuration cfg))) ([], 0);
         g2 = push (fixedSegment Opening Defense ''Defense Opening''
                      (Num (dOpeningDuration cfg))) g1;
         g3 = forUpTo (plaintiffWitnessCount cfg) plaintiffWitnessBody g2;
         g4 = forUpTo (defenseWitnessCount cfg) defenseWitnessBody g3;
         g5 = push (fixedSegment Closing Plaintiff ''Plaintiff Closing''
                      (Num (pClosingDuration cfg))) g4;
         g6 = push (fixedSegment Closing Defense ''Defense Closing''
                      (Num (dClosingDuration cfg))) g5;
         g7 = push (fixedSegment Rebuttal Plaintiff ''Rebuttal'' PosInfinity) g6;
         g8 = push endSegment g7
     in fst g8)"


text \<open>The initial value of the \<open>trialConfig\<close> state.\<close>

definition defaultConfig :: config where
  "defaultConfig =
     \<lparr>pOpeningDuration = 5 * 60, dOpeningDuration = 5 * 60,
      pOverallDirectDuration = 25 * 60, dOverallCrossDuration = 18 * 60,
      dOverallDirectDuration = 25 * 60, pOverallCrossDuration = 18 * 60,
      pClosingDuration = 7 * 60, dClosingDuration = 7 * 60, maxRebuttalDuration = 3 * 60,
      plaintiffWitnessCount = 3, defenseWitnessCount = 3, showTotalSideTimes = False\<rparr>"

section \<open>Application state\<close>

datatype budgetKey =
  POverallDirectDuration | DOverallCrossDuration | DOverallDirectDuration | POverallCrossDuration

text \<open>
  The three shapes of \<open>editModalContext\<close>: \<open>{type: 'segment', segment}\<close>,
  \<open>{type: 'budget', budgetKey, usedBeforeCurrentSegment, currentTotalBudget}\<close> and
  \<open>{type: 'fixed-remaining-edit', segment, originalDuration}\<close>.  A \<open>budgetKey\<close> of
  \<open>null\<close> is \<open>None\<close>.
\<close>

datatype editContext =
  SegmentEdit segment
| BudgetEdit "budgetKey option" jsnum jsnum
| FixedRemainingEdit segment jsnum

text \<open>
  The \<open>useState\<close> cells of the component that the timing logic reads or writes.  The two
  reset confirmations, the configuration mode and the PDF export are left out.
\<close>

record appState =
  trialConfig :: config
  trialSegments :: "segment list"
  currentSegmentIndex :: int
  currentSegmentElapsed :: jsnum
  isRunning :: bool
  showSettings :: bool
  showRedirectPrompt :: bool
  showRecrossPrompt :: bool
  showEditModal :: bool
  editModalContext :: "editContext option"
  editTimeMinutes :: jsnum
  editTimeSeconds :: jsnum

definition initialState :: appState where
  "initialState =
     \<lparr>trialConfig = defaultConfig, trialSegments = [], currentSegmentIndex = 0,
      currentSegmentElapsed = Num 0, isRunning = False, showSettings = True,
      showRedirectPrompt = False, showRecrossPrompt = False, showEditModal = False,
      editModalContext = None, editTimeMinutes = Num 0, editTimeSeconds = Num 0\<rparr>"

text \<open>
  \<open>trialSegments[i]\<close>: \<open>undefined\<close> (\<open>None\<close>) outside the array.  A handler reads the state
  of the render that created it, so every read below is from the state the handler is
  applied to, and its \<open>set...\<close> calls make up the state it returns.
\<close>

definition nthSegment :: "segment list \<Rightarrow> int \<Rightarrow> segment option" where
  "nthSegment segs i = (if 0 \<le> i \<and> i < int (length segs) then Some (segs ! nat i) else None)"

definition currentSegment :: "appState \<Rightarrow> segment option" where
  "currentSegment st = nthSegment (trialSegments st) (currentSegmentIndex st)"

text \<open>\<open>s?.witnessIndex\<close> and \<open>s?.side\<close>.\<close>

definition witnessIndexOf :: "segment option \<Rightarrow> int option" where
  "witnessIndexOf s = (case s of None \<Rightarrow> None | Some c \<Rightarrow> witnessIndex c)"

definition sideOf :: "segment option \<Rightarrow> side option" where
  "sideOf s = (case s of None \<Rightarrow> None | Some c \<Rightarrow> side c)"

section \<open>Ticks and navigation\<close>

definition handleTimerTick :: "appState \<Rightarrow> appState" where
  "handleTimerTick st = st\<lparr>currentSegmentElapsed := jadd (currentSegmentElapsed st) (Num 1)\<rparr>"

text \<open>The segment list after \<open>saveCurrentSegmentTime\<close>.\<close>

definition saveCurrentSegmentTime :: "appState \<Rightarrow> segment list" where
  "saveCurrentSegmentTime st =
     (case currentSegment st of
        None \<Rightarrow> trialSegments st
      | Some cur \<Rightarrow>
          if segType cur \<noteq> End then
            (trialSegments st)[nat (currentSegmentIndex st) :=
               (trialSegments st ! nat (currentSegmentIndex st))
                 \<lparr>actualElapsed := currentSegmentElapsed st\<rparr>]
          else trialSegments st)"

text \<open>
  The \<open>while\<close> loop of \<open>moveToNextSegment\<close>; the result is the final \<open>nextIndex\<close>.  The
  cursor is never below \<open>-1\<close>, so \<open>nextIndex\<close> is never negative; past the end of the array
  the loop stops.
\<close>

function skipForward :: "segment list \<Rightarrow> segment option \<Rightarrow> int \<Rightarrow> int" where
  "skipForward segs cur nextIndex =
     (case nthSegment segs nextIndex of
        None \<Rightarrow> nextIndex
      | Some s \<Rightarrow>
          if isConditional s \<and> actualElapsed s = Num 0 then
            (if witnessIndex s = witnessIndexOf cur \<and> side s = sideOf cur
             then skipForward segs cur (nextIndex + 1)
             else nextIndex)
          else nextIndex)"
  by pat_completeness auto
termination
  by (relation "measure (\<lambda>(segs, cur, nextIndex). nat (int (length segs) - nextIndex))")
     (auto simp: nthSegment_def split: if_splits)

definition redirectFollows :: "appState \<Rightarrow> bool" where
  "redirectFollows st =
     (case currentSegment st of
        None \<Rightarrow> False
      | Some cur \<Rightarrow>
          segType cur = Cross \<and>
          (case nthSegment (trialSegments st) (currentSegmentIndex st + 1) of
             None \<Rightarrow> False
           | Some n \<Rightarrow> segType n = Redirect \<and> witnessIndex n = witnessIndex cur))"

definition recrossFollows :: "appState \<Rightarrow> bool" where
  "recrossFollows st =
     (case currentSegment st of
        None \<Rightarrow> False
      | Some cur \<Rightarrow>
          segType cur = Redirect \<and>
          (case nthSegment (trialSegments st) (currentSegmentIndex st + 1) of
             None \<Rightarrow> False
           | Some n \<Rightarrow> segType n = Recross \<and> witnessIndex n = witnessIndex cur))"

text \<open>\<open>trialSegments[i]?.actualElapsed || 0\<close>.\<close>

definition storedElapsedOrZero :: "segment list \<Rightarrow> int \<Rightarrow> jsnum" where
  "storedElapsedOrZero segs i =
     (case nthSegment segs i of None \<Rightarrow> Num 0 | Some s \<Rightarrow> orZero (actualElapsed s))"

definition moveToNextSegment :: "appState \<Rightarrow> appState" where
  "moveToNextSegment st =
    (let segs = trialSegments st;
         st1 = st\<lparr>isRunning := False, trialSegments := saveCurrentSegmentTime st\<rparr>
     in if redirectFollows st then st1\<lparr>showRedirectPrompt := True\<rparr>
        else if recrossFollows st then st1\<lparr>showRecrossPrompt := True\<rparr>
        else
          (let nextIndex = skipForward segs (currentSegment st) (currentSegmentIndex st + 1)
           in if nextIndex < int (length segs) then
                st1\<lparr>currentSegmentIndex := nextIndex,
                    currentSegmentElapsed := storedElapsedOrZero segs nextIndex\<rparr>
              else
                st1\<lparr>currentSegmentIndex := int (length segs) - 1,
                    currentSegmentElapsed := Num 0\<rparr>))"

text \<open>The \<open>while\<close> loop of \<open>moveToPreviousSegment\<close>; the result is the final \<open>prevIndex\<close>.\<close>

function skipBackward :: "segment list \<Rightarrow> segment option \<Rightarrow> int \<Rightarrow> int" where
  "skipBackward segs cur prevIndex =
     (if 0 \<le> prevIndex then
        (case nthSegment segs prevIndex of
           None \<Rightarrow> prevIndex
         | Some s \<Rightarrow>
             if isConditional s \<and> actualElapsed s = Num 0 \<and>
                witnessIndex s = witnessIndexOf cur \<and> side s = sideOf cur
             then skipBackward segs cur (prevIndex - 1)
             else prevIndex)
      else prevIndex)"
  by pat_completeness auto
termination
  by (relation "measure (\<lambda>(segs, cur, prevIndex). nat (prevIndex + 1))") auto

definition moveToPreviousSegment :: "appState \<Rightarrow> appState" where
  "moveToPreviousSegment st =
    (let segs = trialSegments st;
         st1 = st\<lparr>isRunning := False, trialSegments := saveCurrentSegmentTime st\<rparr>
     in if 0 < currentSegmentIndex st then
          (let prevIndex = skipBackward segs (currentSegment st) (currentSegmentIndex st - 1)
           in st1\<lparr>currentSegmentIndex := prevIndex,
                  currentSegmentElapsed := storedElapsedOrZero segs prevIndex\<rparr>)
        else st1\<lparr>currentSegmentElapsed := Num 0\<rparr>)"

definition toggleTimer :: "appState \<Rightarrow> appState" where
  "toggleTimer st =
     (if showRedirectPrompt st \<or> showRecrossPrompt st \<or>
         (case currentSegment st of None \<Rightarrow> False | Some cur \<Rightarrow> segType cur = End)
      then st
      else st\<lparr>isRunning := \<not> isRunning st\<rparr>)"

definition startTrial :: "appState \<Rightarrow> appState" where
  "startTrial st =
     st\<lparr>trialSegments := generateAllTrialSegments (trialConfig st),
        currentSegmentIndex := 0, currentSegmentElapsed := Num 0,
        showSettings := False, isRunning := False\<rparr>"


section \<open>Redirect and recross prompts\<close>

text \<open>
  The \<open>while\<close> loops of the two prompt handlers, which differ in the segment types they
  accept (\<open>target\<close>).  The condition reads the array of the handler's render; each round
  queues one update that sets \<open>actualElapsed\<close> of the segment at \<open>tempIndex\<close> to \<open>0\<close>, applied
  here to \<open>acc\<close>.  The result is the updated array and the final \<open>tempIndex\<close>.  The prompt is
  rendered only while \<open>currentSegment\<close> is defined.
\<close>

function markSkipped ::
  "(kind \<Rightarrow> bool) \<Rightarrow> segment list \<Rightarrow> segment option \<Rightarrow> int \<Rightarrow> segment list
     \<Rightarrow> segment list \<times> int" where
  "markSkipped target segs cur tempIndex acc =
     (case nthSegment segs tempIndex of
        None \<Rightarrow> (acc, tempIndex)
      | Some s \<Rightarrow>
          if target (segType s) \<and> witnessIndex s = witnessIndexOf cur \<and> side s = sideOf cur
          then markSkipped target segs cur (tempIndex + 1)
                 (acc[nat tempIndex := (acc ! nat tempIndex)\<lparr>actualElapsed := Num 0\<rparr>])
          else (acc, tempIndex))"
  by pat_completeness auto
termination
  by (relation "measure (\<lambda>(target, segs, cur, tempIndex, acc). nat (int (length segs) - tempIndex))")
     (auto simp: nthSegment_def split: if_splits)

definition handleRedirectDecisionPrompt :: "bool \<Rightarrow> appState \<Rightarrow> appState" where
  "handleRedirectDecisionPrompt proceedWithRedirect st =
    (let segs = trialSegments st;
         (segs', nextIndexToAdvanceTo) =
           (if proceedWithRedirect then (segs, currentSegmentIndex st + 1)
            else markSkipped (\<lambda>t. t = Redirect \<or> t = Recross) segs (currentSegment st)
                   (currentSegmentIndex st + 3) segs)
     in st\<lparr>showRedirectPrompt := False, trialSegments := segs',
            currentSegmentIndex := nextIndexToAdvanceTo,
            currentSegmentElapsed := storedElapsedOrZero segs nextIndexToAdvanceTo,
            isRunning := False\<rparr>)"

definition handleRecrossDecisionPrompt :: "bool \<Rightarrow> appState \<Rightarrow> appState" where
  "handleRecrossDecisionPrompt proceedWithRecross st =
    (let segs = trialSegments st;
         (segs', nextIndexToAdvanceTo) =
           (if proceedWithRecross then (segs, currentSegmentIndex st + 1)
            else markSkipped (\<lambda>t. t = Recross) segs (currentSegment st)
                   (currentSegmentIndex st + 1) segs)
     in st\<lparr>showRecrossPrompt := False, trialSegments := segs',
            currentSegmentIndex := nextIndexToAdvanceTo,
            currentSegmentElapsed := storedElapsedOrZero segs nextIndexToAdvanceTo,
            isRunning := False\<rparr>)"

section \<open>Budget accounting and remaining time\<close>

definition doesSegmentContributeToBudget :: "segment \<Rightarrow> budgetKey option \<Rightarrow> bool" where
  "doesSegmentContributeToBudget seg key =
    (let isDirectType = (segType seg = Direct \<or> segType seg = Redirect);
         isCrossType = (segType seg = Cross \<or> segType seg = Recross)
     in case key of
          Some POverallDirectDuration \<Rightarrow> isDirectType \<and> side seg = Some Plaintiff
        | Some DOverallCrossDuration \<Rightarrow>
            isCrossType \<and> side seg = Some Defense \<and> includesStr (segName seg) ''P Witness''
        | Some DOverallDirectDuration \<Rightarrow> isDirectType \<and> side seg = Some Defense
        | Some POverallCrossDuration \<Rightarrow>
            isCrossType \<and> side seg = Some Plaintiff \<and> includesStr (segName seg) ''D Witness''
        | None \<Rightarrow> False)"

text \<open>
  The second accumulation of the budget memo, for one budget: the \<open>forEach\<close> over
  \<open>trialSegments\<close> with its running \<open>index\<close>, adding the \<open>actualElapsed\<close> of the contributing
  segments before \<open>currentSegmentIndex\<close> that recorded time.  \<open>pDirectUsedBeforeCurrent\<close>,
  \<open>dCrossUsedBeforeCurrent\<close>, \<open>dDirectUsedBeforeCurrent\<close> and \<open>pCrossUsedBeforeCurrent\<close> are
  its values at the four keys.
\<close>

fun usedBeforeFrom :: "budgetKey \<Rightarrow> int \<Rightarrow> int \<Rightarrow> segment list \<Rightarrow> jsnum \<Rightarrow> jsnum" where
  "usedBeforeFrom key cur index [] acc = acc"
| "usedBeforeFrom key cur index (s # ss) acc =
     usedBeforeFrom key cur (index + 1) ss
       (if index < cur \<and> jlt (Num 0) (actualElapsed s) \<and>
           doesSegmentContributeToBudget s (Some key)
        then jadd acc (actualElapsed s) else acc)"

definition usedBeforeCurrent :: "budgetKey \<Rightarrow> appState \<Rightarrow> jsnum" where
  "usedBeforeCurrent key st =
     usedBeforeFrom key (currentSegmentIndex st) 0 (trialSegments st) (Num 0)"

text \<open>\<open>trialConfig[budgetKey]\<close>; the \<open>undefined\<close> read at \<open>null\<close> is \<open>NaN\<close> in arithmetic.\<close>

definition configuredBudget :: "config \<Rightarrow> budgetKey option \<Rightarrow> jsnum" where
  "configuredBudget cfg key =
     (case key of
        Some POverallDirectDuration \<Rightarrow> Num (pOverallDirectDuration cfg)
      | Some DOverallCrossDuration \<Rightarrow> Num (dOverallCrossDuration cfg)
      | Some DOverallDirectDuration \<Rightarrow> Num (dOverallDirectDuration cfg)
      | Some POverallCrossDuration \<Rightarrow> Num (pOverallCrossDuration cfg)
      | None \<Rightarrow> NaN)"

datatype remainingType = FixedTime | BudgetTime | NotApplicable

text \<open>The object \<open>displayRemainingTime\<close>; \<open>value\<close>, \<open>type\<close> and \<open>budgetKey\<close> are the first three fields.\<close>

record remainingTime =
  remainingValue :: jsnum
  remainingType :: remainingType
  remainingBudgetKey :: "budgetKey option"
  usedBeforeCurrentSegment :: jsnum
  totalBudget :: jsnum
  overtime :: jsnum

text \<open>\<open>if (remaining < 0) { currentOvertime = -remaining; remaining = 0; }\<close>\<close>

definition splitOvertime :: "jsnum \<Rightarrow> jsnum \<times> jsnum" where
  "splitOvertime r = (if jlt r (Num 0) then (Num 0, jneg r) else (r, Num 0))"

text \<open>The budget the active segment draws from: the first key of the \<open>if\<close> chain it contributes to.\<close>

definition budgetKeyOf :: "segment \<Rightarrow> budgetKey option" where
  "budgetKeyOf cur =
     (if doesSegmentContributeToBudget cur (Some POverallDirectDuration)
        then Some POverallDirectDuration
      else if doesSegmentContributeToBudget cur (Some DOverallCrossDuration)
        then Some DOverallCrossDuration
      else if doesSegmentContributeToBudget cur (Some DOverallDirectDuration)
        then Some DOverallDirectDuration
      else if doesSegmentContributeToBudget cur (Some POverallCrossDuration)
        then Some POverallCrossDuration
      else None)"

text \<open>The dynamic cap of the rebuttal.\<close>

definition rebuttalBudget :: "appState \<Rightarrow> jsnum" where
  "rebuttalBudget st =
    (let pClosingSegment =
           find (\<lambda>s. segType s = Closing \<and> side s = Some Plaintiff) (trialSegments st);
         pClosingActualElapsed =
           (case pClosingSegment of None \<Rightarrow> Num 0 | Some s \<Rightarrow> actualElapsed s)
     in jmax (Num 0)
          (jmin (Num (maxRebuttalDuration (trialConfig st)))
                (jsub (Num (pClosingDuration (trialConfig st))) pClosingActualElapsed)))"

definition displayRemainingTime :: "appState \<Rightarrow> remainingTime" where
  "displayRemainingTime st =
    (case currentSegment st of
       None \<Rightarrow>
         \<lparr>remainingValue = Num 0, remainingType = NotApplicable, remainingBudgetKey = None,
          usedBeforeCurrentSegment = Num 0, totalBudget = Num 0, overtime = Num 0\<rparr>
     | Some cur \<Rightarrow>
         if duration cur \<noteq> PosInfinity then
           (let total = duration cur;
                (r, ot) = splitOvertime (jsub total (currentSegmentElapsed st))
            in \<lparr>remainingValue = r, remainingType = FixedTime, remainingBudgetKey = None,
                usedBeforeCurrentSegment = Num 0, totalBudget = total, overtime = ot\<rparr>)
         else if segType cur = Rebuttal then
           (let total = rebuttalBudget st;
                (r, ot) = splitOvertime (jsub total (currentSegmentElapsed st))
            in \<lparr>remainingValue = r, remainingType = FixedTime, remainingBudgetKey = None,
                usedBeforeCurrentSegment = Num 0, totalBudget = total, overtime = ot\<rparr>)
         else
           (let key = budgetKeyOf cur;
                total = (case key of None \<Rightarrow> Num 0 | Some k \<Rightarrow> configuredBudget (trialConfig st) key);
                used = (case key of None \<Rightarrow> Num 0 | Some k \<Rightarrow> usedBeforeCurrent k st);
                (r, ot) = splitOvertime (jsub total (jadd used (currentSegmentElapsed st)))
            in \<lparr>remainingValue = r, remainingType = BudgetTime, remainingBudgetKey = key,
                usedBeforeCurrentSegment = used, totalBudget = total, overtime = ot\<rparr>))"


section \<open>Time editor\<close>

text \<open>
  \<open>parseInt(s, 10)\<close> of a string: leading white space, an optional sign, then the longest
  run of decimal digits; \<open>NaN\<close> when there is no digit.  Characters are bytes, so only the
  ASCII white space is skipped.
\<close>

definition isWhiteSpace :: "char \<Rightarrow> bool" where
  "isWhiteSpace c = (of_char c \<in> {9, 10, 11, 12, 13, 32 :: nat})"

definition isDigit :: "char \<Rightarrow> bool" where
  "isDigit c = (48 \<le> (of_char c :: nat) \<and> (of_char c :: nat) \<le> 57)"

definition digitValue :: "char \<Rightarrow> int" where
  "digitValue c = int (of_char c) - 48"

definition parseInt10 :: "string \<Rightarrow> jsnum" where
  "parseInt10 s =
    (let t = dropWhile isWhiteSpace s;
         negative = (case t of [] \<Rightarrow> False | c # cs \<Rightarrow> c = CHR ''-'');
         u = (case t of [] \<Rightarrow> [] | c # cs \<Rightarrow> if c = CHR ''-'' \<or> c = CHR ''+'' then cs else t);
         ds = takeWhile isDigit u
     in if ds = [] then NaN
        else Num ((if negative then - 1 else 1) * foldl (\<lambda>a c. 10 * a + digitValue c) 0 ds))"

text \<open>
  \<open>parseInt(x, 10)\<close> of a number: the number is printed first, so an integer reads back as
  itself (below \<open>10^21\<close>, where the printed form is still a plain numeral) and
  \<open>Infinity\<close>, \<open>-Infinity\<close> and \<open>NaN\<close> read as \<open>NaN\<close>.
\<close>

fun parseIntOfNumber :: "jsnum \<Rightarrow> jsnum" where
  "parseIntOfNumber (Num a) = Num a"
| "parseIntOfNumber x = NaN"

text \<open>\<open>currentSegment?.id\<close>.\<close>

definition idOf :: "segment option \<Rightarrow> int option" where
  "idOf s = (case s of None \<Rightarrow> None | Some c \<Rightarrow> Some (segId c))"

definition openEditModal :: "editContext \<Rightarrow> appState \<Rightarrow> appState" where
  "openEditModal context st =
    (let initialTimeInSeconds =
           (case context of
              SegmentEdit seg \<Rightarrow>
                if Some (segId seg) = idOf (currentSegment st) then currentSegmentElapsed st
                else actualElapsed seg
            | BudgetEdit key used budget \<Rightarrow> remainingValue (displayRemainingTime st)
            | FixedRemainingEdit seg original \<Rightarrow> remainingValue (displayRemainingTime st))
     in st\<lparr>isRunning := False, editModalContext := Some context,
            editTimeMinutes := jfloorDiv60 initialTimeInSeconds,
            editTimeSeconds := jrem60 initialTimeInSeconds,
            showEditModal := True\<rparr>)"

definition closeEditModal :: "appState \<Rightarrow> appState" where
  "closeEditModal st =
     st\<lparr>showEditModal := False, editModalContext := None,
        editTimeMinutes := Num 0, editTimeSeconds := Num 0\<rparr>"

text \<open>The \<open>onChange\<close> handlers of the two inputs of the modal, applied to \<open>e.target.value\<close>.\<close>

definition changeEditTimeMinutes :: "string \<Rightarrow> appState \<Rightarrow> appState" where
  "changeEditTimeMinutes v st = st\<lparr>editTimeMinutes := jmax (Num 0) (orZero (parseInt10 v))\<rparr>"

definition changeEditTimeSeconds :: "string \<Rightarrow> appState \<Rightarrow> appState" where
  "changeEditTimeSeconds v st =
     st\<lparr>editTimeSeconds := jmax (Num 0) (jmin (Num 59) (orZero (parseInt10 v)))\<rparr>"

text \<open>
  The \<open>for\<close> loop of the budget edit, from \<open>i\<close> down to \<open>0\<close> while
  \<open>excessToRemove > 0\<close>.  The cursor is inside the array, so \<open>newSegments[i]\<close> is
  defined; outside it the loop stops.  The loop is the body of the function passed to
  \<open>setTrialSegments\<close>, but \<open>excessToRemove\<close>, which it reads and assigns, is declared in
  the handler, outside that function: one run takes the value the variable holds and
  returns the new array together with the value it leaves in the variable.
\<close>

function deductBackward ::
  "budgetKey option \<Rightarrow> int \<Rightarrow> jsnum \<Rightarrow> segment list \<Rightarrow> segment list \<times> jsnum" where
  "deductBackward key i excessToRemove newSegments =
     (if 0 \<le> i \<and> jlt (Num 0) excessToRemove then
        (case nthSegment newSegments i of
           None \<Rightarrow> (newSegments, excessToRemove)
         | Some seg \<Rightarrow>
             if doesSegmentContributeToBudget seg key \<and> jlt (Num 0) (actualElapsed seg) then
               (let canDeduct = jmin excessToRemove (actualElapsed seg)
                in deductBackward key (i - 1) (jsub excessToRemove canDeduct)
                     (newSegments[nat i :=
                        seg\<lparr>actualElapsed := jsub (actualElapsed seg) canDeduct\<rparr>]))
             else deductBackward key (i - 1) excessToRemove newSegments)
      else (newSegments, excessToRemove))"
  by pat_completeness auto
termination
  by (relation "measure (\<lambda>(key, i, excessToRemove, newSegments). nat (i + 1))") auto

text \<open>
  React runs a function passed to a state setter when it computes the next state.  A
  production build runs it once.  A development build that renders the component under
  \<open>StrictMode\<close> runs it twice on the same previous state and keeps the result of the second
  run; a variable the function assigns outside itself holds, at the second run, what the
  first run left in it.  Of the functions this file passes to its setters only the one of
  the budget edit assigns such a variable; a second run of any other returns what the
  first returned.  The file that mounts the component is not part of the sources, so both
  builds are kept: \<open>runUpdater\<close> runs \<open>updater\<close>, which takes and returns the outer variable.
\<close>

datatype build = Production | StrictDevelopment

definition runUpdater ::
  "build \<Rightarrow> (jsnum \<Rightarrow> segment list \<Rightarrow> segment list \<times> jsnum) \<Rightarrow> jsnum \<Rightarrow> segment list
     \<Rightarrow> segment list" where
  "runUpdater b updater outer prevSegments =
     (case b of
        Production \<Rightarrow> fst (updater outer prevSegments)
      | StrictDevelopment \<Rightarrow> fst (updater (snd (updater outer prevSegments)) prevSegments))"

text \<open>\<open>newSegments.find(s => s.id === segment.id)\<close>, then the assignment to its \<open>actualElapsed\<close>.\<close>

fun setElapsedOfFirst :: "int \<Rightarrow> jsnum \<Rightarrow> segment list \<Rightarrow> segment list" where
  "setElapsedOfFirst i v [] = []"
| "setElapsedOfFirst i v (s # ss) =
     (if segId s = i then s\<lparr>actualElapsed := v\<rparr> # ss else s # setElapsedOfFirst i v ss)"

definition newTimeInSecondsFromModal :: "appState \<Rightarrow> jsnum" where
  "newTimeInSecondsFromModal st =
     jadd (jtimes60 (parseIntOfNumber (editTimeMinutes st))) (parseIntOfNumber (editTimeSeconds st))"

text \<open>
  \<open>handleEditTimeSave\<close>, in a build \<open>b\<close>.  \<open>usedBefore\<close> and \<open>shownTotal\<close> are the context's
  \<open>usedBeforeCurrentSegment\<close> and \<open>currentTotalBudget\<close>.  Only the budget branch depends on
  the build.
\<close>

definition handleEditTimeSaveIn :: "build \<Rightarrow> appState \<Rightarrow> appState" where
  "handleEditTimeSaveIn b st =
    (case editModalContext st of
       None \<Rightarrow> st
     | Some (SegmentEdit seg) \<Rightarrow>
         closeEditModal
           (st\<lparr>trialSegments :=
                 map (\<lambda>s. if segId s = segId seg
                           then s\<lparr>actualElapsed := newTimeInSecondsFromModal st\<rparr> else s)
                     (trialSegments st),
               currentSegmentElapsed :=
                 (if Some (segId seg) = idOf (currentSegment st)
                  then newTimeInSecondsFromModal st else currentSegmentElapsed st)\<rparr>)
     | Some (BudgetEdit key usedBefore shownTotal) \<Rightarrow>
         (let totalBudget = configuredBudget (trialConfig st) key;
              desiredTotalUsed = jsub totalBudget (newTimeInSecondsFromModal st);
              calculatedCurrentSegmentElapsed = jsub desiredTotalUsed usedBefore
          in if jlt calculatedCurrentSegmentElapsed (Num 0) then
               closeEditModal
                 (st\<lparr>trialSegments :=
                       runUpdater b (deductBackward key (currentSegmentIndex st - 1))
                         (jneg calculatedCurrentSegmentElapsed) (trialSegments st),
                     currentSegmentElapsed := Num 0\<rparr>)
             else
               closeEditModal
                 (st\<lparr>currentSegmentElapsed :=
                       jmin calculatedCurrentSegmentElapsed
                            (jsub totalBudget usedBefore)\<rparr>))
     | Some (FixedRemainingEdit seg original) \<Rightarrow>
         (let originalDuration = duration seg;
              newCalculatedElapsed = jsub originalDuration (newTimeInSecondsFromModal st);
              finalElapsed = jmax (Num 0) (jmin newCalculatedElapsed originalDuration)
          in closeEditModal
               (st\<lparr>currentSegmentElapsed := finalElapsed,
                   trialSegments := setElapsedOfFirst (segId seg) finalElapsed (trialSegments st)\<rparr>)))"

text \<open>The handler in a production build, where every function passed to a setter runs once.\<close>

definition handleEditTimeSave :: "appState \<Rightarrow> appState" where
  "handleEditTimeSave st = handleEditTimeSaveIn Production st"

text \<open>
  The filters of the two columns of the trial summary.  A listed segment carries a button
  that jumps to it and, unless it is the active one, a button that edits its time.
\<close>

definition listedForPlaintiff :: "segment \<Rightarrow> bool" where
  "listedForPlaintiff s =
     (jlt (Num 0) (actualElapsed s) \<and> segType s \<noteq> End \<and>
      ((side s = Some Plaintiff \<and>
        (segType s = Opening \<or> segType s = Closing \<or> segType s = Rebuttal \<or>
         segType s = Direct \<or> segType s = Redirect)) \<or>
       (side s = Some Plaintiff \<and> (segType s = Cross \<or> segType s = Recross) \<and>
        includesStr (segName s) ''D Witness'')))"

definition listedForDefense :: "segment \<Rightarrow> bool" where
  "listedForDefense s =
     (jlt (Num 0) (actualElapsed s) \<and> segType s \<noteq> End \<and>
      ((side s = Some Defense \<and>
        (segType s = Opening \<or> segType s = Closing \<or>
         segType s = Direct \<or> segType s = Redirect)) \<or>
       (side s = Some Defense \<and> (segType s = Cross \<or> segType s = Recross) \<and>
        includesStr (segName s) ''P Witness'')))"

text \<open>
  The contexts the edit buttons pass to \<open>openEditModal\<close>: "Edit Current Time" and the
  summary's edit buttons pass a segment, "Edit Remaining" passes a budget or a fixed time,
  according to the type of \<open>displayRemainingTime\<close>.  The buttons of the timer display are
  rendered while the active segment is not the end marker.
\<close>

definition segmentEditContexts :: "appState \<Rightarrow> editContext list" where
  "segmentEditContexts st =
     (case currentSegment st of
        None \<Rightarrow> []
      | Some cur \<Rightarrow> if segType cur \<noteq> End then [SegmentEdit cur] else [])
     @ map SegmentEdit
         (filter (\<lambda>s. listedForPlaintiff s \<and> Some (segId s) \<noteq> idOf (currentSegment st))
                 (trialSegments st))
     @ map SegmentEdit
         (filter (\<lambda>s. listedForDefense s \<and> Some (segId s) \<noteq> idOf (currentSegment st))
                 (trialSegments st))"

definition remainingEditContexts :: "appState \<Rightarrow> editContext list" where
  "remainingEditContexts st =
     (case currentSegment st of
        None \<Rightarrow> []
      | Some cur \<Rightarrow>
          if segType cur = End then []
          else if remainingType (displayRemainingTime st) = BudgetTime then
            [BudgetEdit (remainingBudgetKey (displayRemainingTime st))
                        (usedBeforeCurrentSegment (displayRemainingTime st))
                        (totalBudget (displayRemainingTime st))]
          else if remainingType (displayRemainingTime st) = FixedTime then
            [FixedRemainingEdit cur (totalBudget (displayRemainingTime st))]
          else [])"

text \<open>
  One edit: the modal is opened on a context, the user types into the minutes and the
  seconds input (\<open>typeInto\<close>), and saves.
\<close>

definition typeInto :: "editContext \<Rightarrow> string \<Rightarrow> string \<Rightarrow> appState \<Rightarrow> appState" where
  "typeInto context minutes seconds st =
     changeEditTimeSeconds seconds (changeEditTimeMinutes minutes (openEditModal context st))"

definition editWith :: "editContext \<Rightarrow> string \<Rightarrow> string \<Rightarrow> appState \<Rightarrow> appState" where
  "editWith context minutes seconds st = handleEditTimeSave (typeInto context minutes seconds st)"

definition editWithIn ::
  "build \<Rightarrow> editContext \<Rightarrow> string \<Rightarrow> string \<Rightarrow> appState \<Rightarrow> appState" where
  "editWithIn b context minutes seconds st =
     handleEditTimeSaveIn b (typeInto context minutes seconds st)"

section \<open>Jump from the summary\<close>

text \<open>\<open>findIndex\<close>: the first index whose element satisfies the predicate, \<open>-1\<close> when none does.\<close>

fun findIndex :: "('a \<Rightarrow> bool) \<Rightarrow> 'a list \<Rightarrow> int" where
  "findIndex P [] = - 1"
| "findIndex P (x # xs) =
     (if P x then 0 else (let r = findIndex P xs in if r = - 1 then - 1 else r + 1))"

definition goToSegmentFromSummary :: "int \<Rightarrow> appState \<Rightarrow> appState" where
  "goToSegmentFromSummary segmentId st =
    (let st1 = st\<lparr>isRunning := False, showSettings := False\<rparr>;
         segmentIndex = findIndex (\<lambda>seg. segId seg = segmentId) (trialSegments st)
     in if segmentIndex \<noteq> - 1 then
          st1\<lparr>trialSegments := saveCurrentSegmentTime st,
              currentSegmentIndex := segmentIndex,
              currentSegmentElapsed := actualElapsed (trialSegments st ! nat segmentIndex)\<rparr>
        else st1)"


section \<open>Events\<close>

text \<open>
  The events of a run: a tick of the one-second interval, the Start/Pause, Next and Previous
  buttons, and the answers to the two prompts.  The interval exists only while
  \<open>isRunning\<close> holds, so a tick reaches \<open>handleTimerTick\<close> only then.
\<close>

datatype event = Tick | StartPause | Next | Previous | AnswerRedirect bool | AnswerRecross bool

fun perform :: "event \<Rightarrow> appState \<Rightarrow> appState" where
  "perform Tick st = (if isRunning st then handleTimerTick st else st)"
| "perform StartPause st = toggleTimer st"
| "perform Next st = moveToNextSegment st"
| "perform Previous st = moveToPreviousSegment st"
| "perform (AnswerRedirect yes) st = handleRedirectDecisionPrompt yes st"
| "perform (AnswerRecross yes) st = handleRecrossDecisionPrompt yes st"

text \<open>
  What the rendered view offers.  The control buttons are rendered unless a modal or a
  prompt is open or the active segment is the end marker; Previous is disabled at index
  \<open>0\<close> and Next at the last index; the answers exist while their prompt is shown.
\<close>

definition controlsShown :: "appState \<Rightarrow> bool" where
  "controlsShown st =
     (\<not> (showEditModal st \<or> showRedirectPrompt st \<or> showRecrossPrompt st) \<and>
      (case currentSegment st of None \<Rightarrow> False | Some cur \<Rightarrow> segType cur \<noteq> End))"

fun offered :: "appState \<Rightarrow> event \<Rightarrow> bool" where
  "offered st Tick = True"
| "offered st StartPause = controlsShown st"
| "offered st Next =
     (controlsShown st \<and> \<not> int (length (trialSegments st)) - 1 \<le> currentSegmentIndex st)"
| "offered st Previous = (controlsShown st \<and> currentSegmentIndex st \<noteq> 0)"
| "offered st (AnswerRedirect yes) = (showRedirectPrompt st \<and> currentSegment st \<noteq> None)"
| "offered st (AnswerRecross yes) = (showRecrossPrompt st \<and> currentSegment st \<noteq> None)"

definition interact :: "event \<Rightarrow> appState \<Rightarrow> appState" where
  "interact e st = (if offered st e then perform e st else st)"

text \<open>The ticks delivered while running in the course of a run.\<close>

fun ticksDelivered :: "(event \<Rightarrow> appState \<Rightarrow> appState) \<Rightarrow> event list \<Rightarrow> appState \<Rightarrow> nat" where
  "ticksDelivered f [] st = 0"
| "ticksDelivered f (e # es) st =
     (if e = Tick \<and> isRunning st then 1 else 0) + ticksDelivered f es (f e st)"

section \<open>Notions used in the statements\<close>

text \<open>The sum of a list of numbers, as JavaScript adds them.\<close>

definition jsum :: "jsnum list \<Rightarrow> jsnum" where
  "jsum xs = foldr jadd xs (Num 0)"

text \<open>
  The time a state accounts for: what all segments have recorded, plus what the live counter
  of the active segment holds beyond the record of that segment.
\<close>

definition recordedTotal :: "appState \<Rightarrow> jsnum" where
  "recordedTotal st = jsum (map actualElapsed (trialSegments st))"

definition uncommittedElapsed :: "appState \<Rightarrow> jsnum" where
  "uncommittedElapsed st =
     (case currentSegment st of
        None \<Rightarrow> currentSegmentElapsed st
      | Some cur \<Rightarrow> jsub (currentSegmentElapsed st) (actualElapsed cur))"

definition accountedTime :: "appState \<Rightarrow> jsnum" where
  "accountedTime st = jadd (recordedTotal st) (uncommittedElapsed st)"

text \<open>
  A segment list is a timeline of a configuration when it is the generated list up to the
  recorded times: after generation only \<open>actualElapsed\<close> changes.
\<close>

definition timelineOf :: "config \<Rightarrow> segment list \<Rightarrow> bool" where
  "timelineOf cfg segs =
     (map (\<lambda>s. s\<lparr>actualElapsed := Num 0\<rparr>) segs = generateAllTrialSegments cfg)"

text \<open>An integer number of seconds, and one that is not negative.\<close>

fun isSeconds :: "jsnum \<Rightarrow> bool" where
  "isSeconds (Num a) = (0 \<le> a)"
| "isSeconds x = False"

text \<open>A number that is neither negative nor \<open>NaN\<close>.\<close>

fun nonNegative :: "jsnum \<Rightarrow> bool" where
  "nonNegative (Num a) = (0 \<le> a)"
| "nonNegative PosInfinity = True"
| "nonNegative x = False"

text \<open>The segments a four-segment round of a witness loop appends, numbered from \<open>k\<close>.\<close>

definition plaintiffQuad :: "int \<Rightarrow> int \<Rightarrow> segment list" where
  "plaintiffQuad k i =
     [examSegment Direct Plaintiff ''P Witness '' '' - Direct'' False i k,
      examSegment Cross Defense ''P Witness '' '' - Cross'' False i (k + 1),
      examSegment Redirect Plaintiff ''P Witness '' '' - Redirect'' True i (k + 2),
      examSegment Recross Defense ''P Witness '' '' - Recross'' True i (k + 3)]"

definition defenseQuad :: "int \<Rightarrow> int \<Rightarrow> segment list" where
  "defenseQuad k i =
     [examSegment Direct Defense ''D Witness '' '' - Direct'' False i k,
      examSegment Cross Plaintiff ''D Witness '' '' - Cross'' False i (k + 1),
      examSegment Redirect Defense ''D Witness '' '' - Redirect'' True i (k + 2),
      examSegment Recross Plaintiff ''D Witness '' '' - Recross'' True i (k + 3)]"

text \<open>The segment the generator puts at index \<open>i\<close>, in closed form.\<close>

definition generatedAt :: "config \<Rightarrow> nat \<Rightarrow> segment" where
  "generatedAt cfg i =
    (let P = nat (plaintiffWitnessCount cfg); D = nat (defenseWitnessCount cfg) in
     if i = 0 then
       fixedSegment Opening Plaintiff ''Plaintiff Opening'' (Num (pOpeningDuration cfg)) 0
     else if i = 1 then
       fixedSegment Opening Defense ''Defense Opening'' (Num (dOpeningDuration cfg)) 1
     else if i < 2 + 4 * P then
       plaintiffQuad (int (i - (i - 2) mod 4)) (int ((i - 2) div 4)) ! ((i - 2) mod 4)
     else if i < 2 + 4 * P + 4 * D then
       defenseQuad (int (i - (i - 2) mod 4)) (int ((i - 2 - 4 * P) div 4)) ! ((i - 2) mod 4)
     else if i = 2 + 4 * P + 4 * D then
       fixedSegment Closing Plaintiff ''Plaintiff Closing'' (Num (pClosingDuration cfg)) (int i)
     else if i = 3 + 4 * P + 4 * D then
       fixedSegment Closing Defense ''Defense Closing'' (Num (dClosingDuration cfg)) (int i)
     else if i = 4 + 4 * P + 4 * D then
       fixedSegment Rebuttal Plaintiff ''Rebuttal'' PosInfinity (int i)
     else endSegment (int i))"


text \<open>The type, the side and the witness index of the segment at index \<open>i\<close>, for \<open>P\<close> and \<open>D\<close> witnesses (\<open>T\<close> in all).\<close>

definition kindAt :: "nat \<Rightarrow> nat \<Rightarrow> kind" where
  "kindAt T i =
     (if i < 2 then Opening
      else if i < 2 + 4 * T then
        (if (i - 2) mod 4 = 0 then Direct else if (i - 2) mod 4 = 1 then Cross
         else if (i - 2) mod 4 = 2 then Redirect else Recross)
      else if i < 4 + 4 * T then Closing
      else if i = 4 + 4 * T then Rebuttal
      else End)"

definition sideAt :: "nat \<Rightarrow> nat \<Rightarrow> nat \<Rightarrow> side option" where
  "sideAt P D i =
     (if i = 0 then Some Plaintiff
      else if i = 1 then Some Defense
      else if i < 2 + 4 * P then (if even (i - 2) then Some Plaintiff else Some Defense)
      else if i < 2 + 4 * P + 4 * D then (if even (i - 2) then Some Defense else Some Plaintiff)
      else if i = 2 + 4 * P + 4 * D then Some Plaintiff
      else if i = 3 + 4 * P + 4 * D then Some Defense
      else if i = 4 + 4 * P + 4 * D then Some Plaintiff
      else None)"

definition witnessAt :: "nat \<Rightarrow> nat \<Rightarrow> nat \<Rightarrow> int option" where
  "witnessAt P D i =
     (if i < 2 then None
      else if i < 2 + 4 * P then Some (int ((i - 2) div 4))
      else if i < 2 + 4 * P + 4 * D then Some (int ((i - 2 - 4 * P) div 4))
      else None)"

text \<open>
  The integer a number holds, whether a number is an integer, and the time a segment
  charges to a budget: its recorded time when it contributes to the budget and recorded
  time, as the budget memo counts it.  \<open>chargedBefore key n\<close> is the sum over the first
  \<open>n\<close> segments.
\<close>


fun secondsOf :: "jsnum \<Rightarrow> int" where
  "secondsOf (Num a) = a"
| "secondsOf x = 0"

fun isNum :: "jsnum \<Rightarrow> bool" where
  "isNum (Num a) = True"
| "isNum x = False"

definition chargedTo :: "budgetKey \<Rightarrow> segment \<Rightarrow> int" where
  "chargedTo key s =
     (if doesSegmentContributeToBudget s (Some key) \<and> 0 < secondsOf (actualElapsed s)
      then secondsOf (actualElapsed s) else 0)"

definition chargedBefore :: "budgetKey \<Rightarrow> nat \<Rightarrow> segment list \<Rightarrow> int" where
  "chargedBefore key n segs = sum_list (map (chargedTo key) (take n segs))"

text \<open>The seconds a segment list has recorded.\<close>

definition recordedSeconds :: "segment list \<Rightarrow> int" where
  "recordedSeconds segs = sum_list (map (\<lambda>s. secondsOf (actualElapsed s)) segs)"

text \<open>
  The live counter is committed when the record of the active segment holds its value.
\<close>

definition committed :: "appState \<Rightarrow> bool" where
  "committed st =
     (case currentSegment st of
        None \<Rightarrow> False
      | Some cur \<Rightarrow> actualElapsed cur = currentSegmentElapsed st)"

definition currentType :: "appState \<Rightarrow> kind option" where
  "currentType st = (case currentSegment st of None \<Rightarrow> None | Some cur \<Rightarrow> Some (segType cur))"

text \<open>
  What holds of every state of a run after \<open>n\<close> delivered ticks: the segments are a
  timeline of the configuration with the cursor inside it, all times are integers and
  account for \<open>n\<close> seconds, no edit is open, and while a prompt is pending the timer is
  paused on a committed cross (redirect prompt) or redirect (recross prompt).
\<close>

definition runInvariant :: "nat \<Rightarrow> appState \<Rightarrow> bool" where
  "runInvariant n st =
     (timelineOf (trialConfig st) (trialSegments st)
      \<and> currentSegment st \<noteq> None
      \<and> list_all (\<lambda>s. isNum (actualElapsed s)) (trialSegments st)
      \<and> isNum (currentSegmentElapsed st)
      \<and> accountedTime st = Num (int n)
      \<and> \<not> showEditModal st
      \<and> (showRedirectPrompt st \<longrightarrow>
            \<not> isRunning st \<and> committed st \<and> \<not> showRecrossPrompt st \<and> currentType st = Some Cross)
      \<and> (showRecrossPrompt st \<longrightarrow>
            \<not> isRunning st \<and> committed st \<and> currentType st = Some Redirect))"

text \<open>
  The times of a state are valid when no recorded time and no live counter is negative or
  \<open>NaN\<close>, and every segment other than the rebuttal holds an integer.
\<close>

definition validTimes :: "appState \<Rightarrow> bool" where
  "validTimes st =
     (list_all (\<lambda>s. nonNegative (actualElapsed s) \<and>
                     (segType s \<noteq> Rebuttal \<longrightarrow> isNum (actualElapsed s)))
               (trialSegments st)
      \<and> nonNegative (currentSegmentElapsed st))"

section \<open>Example runs\<close>

text \<open>
  A trial with one plaintiff witness and no defense witness (ten segments: two openings,
  the four examinations, two closings, the rebuttal and the end marker), and states reached
  in it through the interface.
\<close>

definition smallConfig :: config where
  "smallConfig = defaultConfig\<lparr>plaintiffWitnessCount := 1, defenseWitnessCount := 0\<rparr>"

definition smallTrial :: appState where
  "smallTrial = startTrial (initialState\<lparr>trialConfig := smallConfig\<rparr>)"

definition atRedirect :: appState where
  "atRedirect =
     fold interact [Next, Next, StartPause, Tick, Tick, Tick, Next, Next, AnswerRedirect True]
       smallTrial"

definition atPlaintiffClosing :: appState where
  "atPlaintiffClosing = fold interact [Next, Next, Next, Next, AnswerRedirect False] smallTrial"

definition atRebuttal :: appState where
  "atRebuttal =
     fold interact [Next, Next]
       (editWith (hd (segmentEditContexts atPlaintiffClosing)) ''5'' ''0'' atPlaintiffClosing)"

definition redirectPromptRevisited :: appState where
  "redirectPromptRevisited =
     fold interact [Next, Next, Next, Next, AnswerRedirect True, StartPause, Tick, Tick,
                    Previous, Next] smallTrial"

definition recrossPromptRevisited :: appState where
  "recrossPromptRevisited =
     fold interact [Next, Next, Next, Next, AnswerRedirect True, Next, AnswerRecross True,
                    StartPause, Tick, Previous, Next] smallTrial"

definition resumedOpening :: appState where
  "resumedOpening =
     fold interact [StartPause, Tick, Tick, Next, Previous, StartPause, Tick] smallTrial"

definition retreatRun :: "event list" where
  "retreatRun = [StartPause, Tick, Tick, Previous, StartPause, Tick, Next]"

definition rebuttalRemainingSaved :: appState where
  "rebuttalRemainingSaved =
     editWith (hd (remainingEditContexts atRebuttal)) ''0'' ''30'' atRebuttal"

definition minutesOnlySaved :: appState where
  "minutesOnlySaved =
     handleEditTimeSave
       (changeEditTimeMinutes ''1''
          (openEditModal (hd (segmentEditContexts rebuttalRemainingSaved)) rebuttalRemainingSaved))"

definition budgetRemainingSaved :: "build \<Rightarrow> appState" where
  "budgetRemainingSaved b =
     editWithIn b (hd (remainingEditContexts atRedirect)) ''24'' ''59'' atRedirect"

section \<open>The generated timeline in closed form\<close>


lemma fst_push: "fst (push mk g) = fst g @ [mk (snd g)]"
  by (simp add: push_def)

lemma snd_push: "snd (push mk g) = snd g + 1"
  by (simp add: push_def)

lemma plaintiffWitnessBody_eq:
  "plaintiffWitnessBody i (segs, k) = (segs @ plaintiffQuad k i, k + 4)"
  by (simp add: plaintiffWitnessBody_def push_def plaintiffQuad_def add.commute)

lemma defenseWitnessBody_eq:
  "defenseWitnessBody i (segs, k) = (segs @ defenseQuad k i, k + 4)"
  by (simp add: defenseWitnessBody_def push_def defenseQuad_def add.commute)

lemma fold_quads:
  assumes "\<And>i segs k. body i (segs, k) = (segs @ quad k i, k + 4)"
  shows "fold body (map int [0..<m]) (segs, k) =
           (segs @ concat (map (\<lambda>j. quad (k + 4 * int j) (int j)) [0..<m]), k + 4 * int m)"
proof (induction m)
  case 0
  show ?case by simp
next
  case (Suc m)
  show ?case by (simp add: Suc assms algebra_simps)
qed

lemma forUpTo_plaintiff:
  "forUpTo n plaintiffWitnessBody (segs, k) =
     (segs @ concat (map (\<lambda>j. plaintiffQuad (k + 4 * int j) (int j)) [0..<nat n]),
      k + 4 * int (nat n))"
  unfolding forUpTo_def by (rule fold_quads) (rule plaintiffWitnessBody_eq)

lemma forUpTo_defense:
  "forUpTo n defenseWitnessBody (segs, k) =
     (segs @ concat (map (\<lambda>j. defenseQuad (k + 4 * int j) (int j)) [0..<nat n]),
      k + 4 * int (nat n))"
  unfolding forUpTo_def by (rule fold_quads) (rule defenseWitnessBody_eq)

lemma generate_structure:
  "generateAllTrialSegments cfg =
    [fixedSegment Opening Plaintiff ''Plaintiff Opening'' (Num (pOpeningDuration cfg)) 0,
     fixedSegment Opening Defense ''Defense Opening'' (Num (dOpeningDuration cfg)) 1]
    @ concat (map (\<lambda>j. plaintiffQuad (2 + 4 * int j) (int j))
               [0..<nat (plaintiffWitnessCount cfg)])
    @ concat (map (\<lambda>j. defenseQuad (2 + 4 * int (nat (plaintiffWitnessCount cfg)) + 4 * int j) (int j))
               [0..<nat (defenseWitnessCount cfg)])
    @ (let t = 2 + 4 * int (nat (plaintiffWitnessCount cfg)) + 4 * int (nat (defenseWitnessCount cfg)) in
      [fixedSegment Closing Plaintiff ''Plaintiff Closing'' (Num (pClosingDuration cfg)) t,
       fixedSegment Closing Defense ''Defense Closing'' (Num (dClosingDuration cfg)) (t + 1),
       fixedSegment Rebuttal Plaintiff ''Rebuttal'' PosInfinity (t + 2),
       endSegment (t + 3)])"
  by (simp add: generateAllTrialSegments_def Let_def push_def forUpTo_plaintiff forUpTo_defense)


lemma upt_four: "[m..<m + 4] = [m, m + 1, m + 2, m + 3]"
proof -
  have "[m..<m + 4] = m # [Suc m..<m + 4]" by (rule upt_conv_Cons) simp
  also have "[Suc m..<m + 4] = Suc m # [Suc (Suc m)..<m + 4]" by (rule upt_conv_Cons) simp
  also have "[Suc (Suc m)..<m + 4] = Suc (Suc m) # [Suc (Suc (Suc m))..<m + 4]"
    by (rule upt_conv_Cons) simp
  also have "[Suc (Suc (Suc m))..<m + 4] = Suc (Suc (Suc m)) # [Suc (Suc (Suc (Suc m)))..<m + 4]"
    by (rule upt_conv_Cons) simp
  also have "[Suc (Suc (Suc (Suc m)))..<m + 4] = []" by simp
  finally show ?thesis by simp
qed

lemma upt_add4:
  "[a..<a + 4 * Suc n] = [a..<a + 4 * n] @ [a + 4 * n, a + 4 * n + 1, a + 4 * n + 2, a + 4 * n + 3]"
proof -
  have "a + 4 * Suc n = (a + 4 * n) + 4" by simp
  then have "[a..<a + 4 * Suc n] = [a..<(a + 4 * n) + 4]" by (rule arg_cong)
  also have "\<dots> = [a..<a + 4 * n] @ [a + 4 * n..<(a + 4 * n) + 4]"
    by (rule upt_add_eq_append) simp
  finally show ?thesis by (simp only: upt_four)
qed

lemma generatedAt_plaintiff_nth:
  assumes "n < nat (plaintiffWitnessCount cfg)" "r < 4"
  shows "generatedAt cfg (2 + 4 * n + r) = plaintiffQuad (2 + 4 * int n) (int n) ! r"
proof -
  have 1: "2 + 4 * n + r \<noteq> 0" "2 + 4 * n + r \<noteq> 1"
          "2 + 4 * n + r < 2 + 4 * nat (plaintiffWitnessCount cfg)"
    using assms by auto
  have 2: "(2 + 4 * n + r - 2) mod 4 = r" "(2 + 4 * n + r - 2) div 4 = n"
    using assms by auto
  have 3: "int (2 + 4 * n + r - r) = 2 + 4 * int n" by simp
  show ?thesis
    unfolding generatedAt_def Let_def by (simp only: 1 2 3 if_False if_True)
qed

lemma generatedAt_defense_nth:
  assumes "n < nat (defenseWitnessCount cfg)" "r < 4"
  shows "generatedAt cfg (2 + 4 * nat (plaintiffWitnessCount cfg) + 4 * n + r)
           = defenseQuad (2 + 4 * int (nat (plaintiffWitnessCount cfg)) + 4 * int n) (int n) ! r"
proof -
  let ?P = "nat (plaintiffWitnessCount cfg)"
  have 1: "2 + 4 * ?P + 4 * n + r \<noteq> 0" "2 + 4 * ?P + 4 * n + r \<noteq> 1"
          "\<not> 2 + 4 * ?P + 4 * n + r < 2 + 4 * ?P"
          "2 + 4 * ?P + 4 * n + r < 2 + 4 * ?P + 4 * nat (defenseWitnessCount cfg)"
    using assms by auto
  have "2 + 4 * ?P + 4 * n + r - 2 = 4 * (?P + n) + r" by simp
  then have 2: "(2 + 4 * ?P + 4 * n + r - 2) mod 4 = r"
    using assms(2) by (simp only: mod_mult_self4 mod_less)
  have 3: "(2 + 4 * ?P + 4 * n + r - 2 - 4 * ?P) div 4 = n" using assms by simp
  have 4: "int (2 + 4 * ?P + 4 * n + r - r) = 2 + 4 * int ?P + 4 * int n" by simp
  show ?thesis
    unfolding generatedAt_def Let_def by (simp only: 1 2 3 4 if_False if_True)
qed


lemma plaintiff_block:
  "n \<le> nat (plaintiffWitnessCount cfg) \<Longrightarrow>
   concat (map (\<lambda>j. plaintiffQuad (2 + 4 * int j) (int j)) [0..<n])
     = map (generatedAt cfg) [2..<2 + 4 * n]"
proof (induction n)
  case 0
  show ?case by simp
next
  case (Suc n)
  then have n: "n < nat (plaintiffWitnessCount cfg)" and le: "n \<le> nat (plaintiffWitnessCount cfg)"
    by simp_all
  have q: "plaintiffQuad (2 + 4 * int n) (int n)
             = map (generatedAt cfg) [2 + 4 * n, 2 + 4 * n + 1, 2 + 4 * n + 2, 2 + 4 * n + 3]"
    using generatedAt_plaintiff_nth [OF n, of 0] generatedAt_plaintiff_nth [OF n, of 1]
          generatedAt_plaintiff_nth [OF n, of 2] generatedAt_plaintiff_nth [OF n, of 3]
    by (simp add: plaintiffQuad_def)
  show ?case
    by (simp only: upt_add4 map_append concat_append upt_Suc_append [OF le0] Suc.IH [OF le] q
          concat.simps list.map append_Nil2)
qed

lemma defense_block:
  "n \<le> nat (defenseWitnessCount cfg) \<Longrightarrow>
   concat (map (\<lambda>j. defenseQuad (2 + 4 * int (nat (plaintiffWitnessCount cfg)) + 4 * int j) (int j))
             [0..<n])
     = map (generatedAt cfg) [2 + 4 * nat (plaintiffWitnessCount cfg)
                             ..<2 + 4 * nat (plaintiffWitnessCount cfg) + 4 * n]"
proof (induction n)
  case 0
  show ?case by simp
next
  case (Suc n)
  let ?P = "nat (plaintiffWitnessCount cfg)"
  from Suc.prems have n: "n < nat (defenseWitnessCount cfg)" and le: "n \<le> nat (defenseWitnessCount cfg)"
    by simp_all
  have q: "defenseQuad (2 + 4 * int ?P + 4 * int n) (int n)
             = map (generatedAt cfg) [2 + 4 * ?P + 4 * n, 2 + 4 * ?P + 4 * n + 1,
                                    2 + 4 * ?P + 4 * n + 2, 2 + 4 * ?P + 4 * n + 3]"
    using generatedAt_defense_nth [OF n, of 0] generatedAt_defense_nth [OF n, of 1]
          generatedAt_defense_nth [OF n, of 2] generatedAt_defense_nth [OF n, of 3]
    by (simp add: defenseQuad_def)
  show ?case
    by (simp only: upt_add4 map_append concat_append upt_Suc_append [OF le0] Suc.IH [OF le] q
          concat.simps list.map append_Nil2)
qed

lemma generate_tabulate:
  "generateAllTrialSegments cfg =
     map (generatedAt cfg)
       [0..<6 + 4 * nat (plaintiffWitnessCount cfg) + 4 * nat (defenseWitnessCount cfg)]"
proof -
  let ?P = "nat (plaintiffWitnessCount cfg)" and ?D = "nat (defenseWitnessCount cfg)"
  let ?t = "2 + 4 * ?P + 4 * ?D"
  have "6 + 4 * ?P + 4 * ?D = ?t + 4" by simp
  then have "[0..<6 + 4 * ?P + 4 * ?D] = [0..<?t + 4]" by (rule arg_cong)
  also have "\<dots> = [0..<?t] @ [?t..<?t + 4]" by (rule upt_add_eq_append) simp
  also have "[0..<?t] = [0..<2 + 4 * ?P] @ [2 + 4 * ?P..<2 + 4 * ?P + 4 * ?D]"
    by (rule upt_add_eq_append) simp
  also have "[0..<2 + 4 * ?P] = [0..<2] @ [2..<2 + 4 * ?P]"
    by (rule upt_add_eq_append) simp
  also have "[0..<2] = [0, Suc 0]" by (simp add: upt_rec)
  finally have split: "[0..<6 + 4 * ?P + 4 * ?D] =
      ([0, Suc 0] @ [2..<2 + 4 * ?P] @ [2 + 4 * ?P..<2 + 4 * ?P + 4 * ?D]) @ [?t, ?t + 1, ?t + 2, ?t + 3]"
    by (simp only: upt_four append_assoc)
  have tail: "map (generatedAt cfg) [?t, ?t + 1, ?t + 2, ?t + 3] =
      [fixedSegment Closing Plaintiff ''Plaintiff Closing'' (Num (pClosingDuration cfg)) (int ?t),
       fixedSegment Closing Defense ''Defense Closing'' (Num (dClosingDuration cfg)) (int ?t + 1),
       fixedSegment Rebuttal Plaintiff ''Rebuttal'' PosInfinity (int ?t + 2),
       endSegment (int ?t + 3)]"
    by (simp add: generatedAt_def Let_def algebra_simps)
  have head: "map (generatedAt cfg) [0, Suc 0] =
      [fixedSegment Opening Plaintiff ''Plaintiff Opening'' (Num (pOpeningDuration cfg)) 0,
       fixedSegment Opening Defense ''Defense Opening'' (Num (dOpeningDuration cfg)) 1]"
    by (simp add: generatedAt_def Let_def)
  show ?thesis
    unfolding split map_append tail head
      plaintiff_block [OF order_refl, symmetric] defense_block [OF order_refl, symmetric]
    by (simp add: generate_structure Let_def algebra_simps)
qed


lemma length_generate:
  "length (generateAllTrialSegments cfg) =
     6 + 4 * nat (plaintiffWitnessCount cfg) + 4 * nat (defenseWitnessCount cfg)"
  by (simp add: generate_tabulate)

lemma nth_generate:
  "i < 6 + 4 * nat (plaintiffWitnessCount cfg) + 4 * nat (defenseWitnessCount cfg) \<Longrightarrow>
   generateAllTrialSegments cfg ! i = generatedAt cfg i"
  by (simp add: generate_tabulate del: upt_Suc)

lemma generated_index_cases:
  fixes i P D :: nat
  assumes "i < 6 + 4 * P + 4 * D"
  obtains (opening_p) "i = 0"
        | (opening_d) "i = 1"
        | (witness_p) n r where "n < P" "r < 4" "i = 2 + 4 * n + r"
        | (witness_d) n r where "n < D" "r < 4" "i = 2 + 4 * P + 4 * n + r"
        | (closing_p) "i = 2 + 4 * P + 4 * D"
        | (closing_d) "i = 3 + 4 * P + 4 * D"
        | (rebuttal) "i = 4 + 4 * P + 4 * D"
        | (ending) "i = 5 + 4 * P + 4 * D"
proof -
  consider "i = 0" | "i = 1" | "2 \<le> i \<and> i < 2 + 4 * P" | "2 + 4 * P \<le> i \<and> i < 2 + 4 * P + 4 * D"
    | "i = 2 + 4 * P + 4 * D" | "i = 3 + 4 * P + 4 * D" | "i = 4 + 4 * P + 4 * D"
    | "i = 5 + 4 * P + 4 * D"
    using assms by linarith
  then show thesis
  proof cases
    case 3
    then have "(i - 2) div 4 < P" "(i - 2) mod 4 < 4" "i = 2 + 4 * ((i - 2) div 4) + (i - 2) mod 4"
      by auto
    then show thesis by (rule witness_p)
  next
    case 4
    then have "(i - 2 - 4 * P) div 4 < D" "(i - 2 - 4 * P) mod 4 < 4"
      "i = 2 + 4 * P + 4 * ((i - 2 - 4 * P) div 4) + (i - 2 - 4 * P) mod 4"
      by auto
    then show thesis by (rule witness_d)
  qed (use that in blast)+
qed

lemma less_four_cases:
  fixes r :: nat
  assumes "r < 4"
  obtains "r = 0" | "r = 1" | "r = 2" | "r = 3"
  using assms by linarith

lemma filter_concat_empty:
  "(\<And>x. filter P (f x) = []) \<Longrightarrow> filter P (concat (map f xs)) = []"
  by (induction xs) simp_all

lemma generate_ends:
  "length (filter (\<lambda>s. segType s = End) (generateAllTrialSegments cfg)) = 1
   \<and> segType (last (generateAllTrialSegments cfg)) = End
   \<and> duration (last (generateAllTrialSegments cfg)) = Num 0
   \<and> \<not> isConditional (last (generateAllTrialSegments cfg))"
proof -
  have p: "\<And>k i. filter (\<lambda>s. segType s = End) (plaintiffQuad k i) = []"
    by (simp add: plaintiffQuad_def examSegment_def)
  have d: "\<And>k i. filter (\<lambda>s. segType s = End) (defenseQuad k i) = []"
    by (simp add: defenseQuad_def examSegment_def)
  show ?thesis
    unfolding generate_structure Let_def
    by (simp add: filter_concat_empty p d fixedSegment_def endSegment_def)
qed


text \<open>The four segments from index \<open>b\<close> on.\<close>

lemma take_drop_generate:
  assumes "b + 4 \<le> 6 + 4 * nat (plaintiffWitnessCount cfg) + 4 * nat (defenseWitnessCount cfg)"
  shows "take 4 (drop b (generateAllTrialSegments cfg)) =
           map (generatedAt cfg) [b, b + 1, b + 2, b + 3]"
proof -
  let ?n = "6 + 4 * nat (plaintiffWitnessCount cfg) + 4 * nat (defenseWitnessCount cfg)"
  have "take 4 (drop b [0..<?n]) = [b..<b + 4]"
    using assms by (simp only: drop_upt take_upt add_0)
  then show ?thesis
    by (simp only: generate_tabulate drop_map take_map upt_four)
qed

lemma plaintiff_quadruple:
  assumes "n < nat (plaintiffWitnessCount cfg)"
  shows "take 4 (drop (2 + 4 * n) (generateAllTrialSegments cfg)) =
           plaintiffQuad (2 + 4 * int n) (int n)"
proof -
  have "2 + 4 * n + 4 \<le> 6 + 4 * nat (plaintiffWitnessCount cfg) + 4 * nat (defenseWitnessCount cfg)"
    using assms by simp
  then have "take 4 (drop (2 + 4 * n) (generateAllTrialSegments cfg)) =
               map (generatedAt cfg) [2 + 4 * n, 2 + 4 * n + 1, 2 + 4 * n + 2, 2 + 4 * n + 3]"
    by (rule take_drop_generate)
  also have "\<dots> = plaintiffQuad (2 + 4 * int n) (int n)"
    using generatedAt_plaintiff_nth [OF assms, of 0] generatedAt_plaintiff_nth [OF assms, of 1]
          generatedAt_plaintiff_nth [OF assms, of 2] generatedAt_plaintiff_nth [OF assms, of 3]
    by (simp add: plaintiffQuad_def)
  finally show ?thesis .
qed

lemma defense_quadruple:
  assumes "n < nat (defenseWitnessCount cfg)"
  shows "take 4 (drop (2 + 4 * nat (plaintiffWitnessCount cfg) + 4 * n) (generateAllTrialSegments cfg)) =
           defenseQuad (2 + 4 * int (nat (plaintiffWitnessCount cfg)) + 4 * int n) (int n)"
proof -
  let ?b = "2 + 4 * nat (plaintiffWitnessCount cfg) + 4 * n"
  have "?b + 4 \<le> 6 + 4 * nat (plaintiffWitnessCount cfg) + 4 * nat (defenseWitnessCount cfg)"
    using assms by simp
  then have "take 4 (drop ?b (generateAllTrialSegments cfg)) =
               map (generatedAt cfg) [?b, ?b + 1, ?b + 2, ?b + 3]"
    by (rule take_drop_generate)
  also have "\<dots> = defenseQuad (2 + 4 * int (nat (plaintiffWitnessCount cfg)) + 4 * int n) (int n)"
    using generatedAt_defense_nth [OF assms, of 0] generatedAt_defense_nth [OF assms, of 1]
          generatedAt_defense_nth [OF assms, of 2] generatedAt_defense_nth [OF assms, of 3]
    by (simp add: defenseQuad_def)
  finally show ?thesis .
qed

lemma plaintiffQuad_nth_fields:
  assumes "r < 4"
  shows "segType (plaintiffQuad k w ! r) =
           (if r = 0 then Direct else if r = 1 then Cross else if r = 2 then Redirect else Recross)"
    and "side (plaintiffQuad k w ! r) = (if even r then Some Plaintiff else Some Defense)"
    and "witnessIndex (plaintiffQuad k w ! r) = Some w"
    and "isConditional (plaintiffQuad k w ! r) = (2 \<le> r)"
    and "duration (plaintiffQuad k w ! r) = PosInfinity"
    and "segId (plaintiffQuad k w ! r) = k + int r"
    and "actualElapsed (plaintiffQuad k w ! r) = Num 0"
    and "startsWith (segName (plaintiffQuad k w ! r)) ''P Witness''"
  using assms
  by (cases rule: less_four_cases; simp add: plaintiffQuad_def examSegment_def)+

lemma defenseQuad_nth_fields:
  assumes "r < 4"
  shows "segType (defenseQuad k w ! r) =
           (if r = 0 then Direct else if r = 1 then Cross else if r = 2 then Redirect else Recross)"
    and "side (defenseQuad k w ! r) = (if even r then Some Defense else Some Plaintiff)"
    and "witnessIndex (defenseQuad k w ! r) = Some w"
    and "isConditional (defenseQuad k w ! r) = (2 \<le> r)"
    and "duration (defenseQuad k w ! r) = PosInfinity"
    and "segId (defenseQuad k w ! r) = k + int r"
    and "actualElapsed (defenseQuad k w ! r) = Num 0"
    and "startsWith (segName (defenseQuad k w ! r)) ''D Witness''"
  using assms
  by (cases rule: less_four_cases; simp add: defenseQuad_def examSegment_def)+

lemma mod4_less: "(m::nat) mod 4 < 4"
  by simp


lemmas plaintiffQuad_mod_fields = plaintiffQuad_nth_fields [OF mod4_less]
lemmas defenseQuad_mod_fields = defenseQuad_nth_fields [OF mod4_less]

lemma generatedAt_segType:
  "segType (generatedAt cfg i) =
     kindAt (nat (plaintiffWitnessCount cfg) + nat (defenseWitnessCount cfg)) i"
  unfolding generatedAt_def kindAt_def Let_def
  apply (simp only: if_distrib [where f = segType] plaintiffQuad_mod_fields(1)
           defenseQuad_mod_fields(1))
  apply (auto simp: fixedSegment_def endSegment_def)
  done


lemma even_mod4: "even ((m::nat) mod 4) = even m"
  by presburger

lemma le2_mod4: "(2 \<le> (m::nat) mod 4) = (m mod 4 \<noteq> 0 \<and> m mod 4 \<noteq> 1)"
  by presburger

lemma generatedAt_side:
  "side (generatedAt cfg i) =
     sideAt (nat (plaintiffWitnessCount cfg)) (nat (defenseWitnessCount cfg)) i"
  unfolding generatedAt_def sideAt_def Let_def
  apply (simp only: if_distrib [where f = side] plaintiffQuad_mod_fields(2)
           defenseQuad_mod_fields(2) even_mod4)
  apply (simp add: fixedSegment_def endSegment_def)
  done

lemma generatedAt_witnessIndex:
  "witnessIndex (generatedAt cfg i) =
     witnessAt (nat (plaintiffWitnessCount cfg)) (nat (defenseWitnessCount cfg)) i"
  unfolding generatedAt_def witnessAt_def Let_def
  apply (simp only: if_distrib [where f = witnessIndex] plaintiffQuad_mod_fields(3)
           defenseQuad_mod_fields(3))
  apply (simp add: fixedSegment_def endSegment_def)
  done

lemma generatedAt_isConditional:
  "isConditional (generatedAt cfg i) =
     (kindAt (nat (plaintiffWitnessCount cfg) + nat (defenseWitnessCount cfg)) i = Redirect \<or>
      kindAt (nat (plaintiffWitnessCount cfg) + nat (defenseWitnessCount cfg)) i = Recross)"
  unfolding generatedAt_def kindAt_def Let_def
  apply (simp only: if_distrib [where f = isConditional] plaintiffQuad_mod_fields(4)
           defenseQuad_mod_fields(4) le2_mod4)
  apply (auto simp: fixedSegment_def endSegment_def)
  done

lemma generatedAt_segId:
  "segId (generatedAt cfg i) = int i"
  unfolding generatedAt_def Let_def
  apply (simp only: if_distrib [where f = segId] plaintiffQuad_mod_fields(6)
           defenseQuad_mod_fields(6))
  apply (simp add: fixedSegment_def endSegment_def)
  done

lemma generatedAt_actualElapsed:
  "actualElapsed (generatedAt cfg i) = Num 0"
  unfolding generatedAt_def Let_def
  apply (simp only: if_distrib [where f = actualElapsed] plaintiffQuad_mod_fields(7)
           defenseQuad_mod_fields(7))
  apply (simp add: fixedSegment_def endSegment_def)
  done


lemma generate_conditional_iff:
  "\<forall>s \<in> set (generateAllTrialSegments cfg).
     isConditional s \<longleftrightarrow> (segType s = Redirect \<or> segType s = Recross)"
  by (simp add: generate_tabulate generatedAt_isConditional generatedAt_segType del: upt_Suc)

section \<open>Timelines\<close>


lemma generatedAt_duration:
  "duration (generatedAt cfg i) =
     (let P = nat (plaintiffWitnessCount cfg); D = nat (defenseWitnessCount cfg) in
      if i = 0 then Num (pOpeningDuration cfg)
      else if i = 1 then Num (dOpeningDuration cfg)
      else if i < 2 + 4 * P + 4 * D then PosInfinity
      else if i = 2 + 4 * P + 4 * D then Num (pClosingDuration cfg)
      else if i = 3 + 4 * P + 4 * D then Num (dClosingDuration cfg)
      else if i = 4 + 4 * P + 4 * D then PosInfinity
      else Num 0)"
  unfolding generatedAt_def Let_def
  apply (simp only: if_distrib [where f = duration] plaintiffQuad_mod_fields(5)
           defenseQuad_mod_fields(5))
  apply (simp add: fixedSegment_def endSegment_def)
  done

text \<open>Facts about a timeline: the fields other than \<open>actualElapsed\<close> are the generated ones.\<close>

lemma timeline_length:
  "timelineOf cfg segs \<Longrightarrow>
   length segs = 6 + 4 * nat (plaintiffWitnessCount cfg) + 4 * nat (defenseWitnessCount cfg)"
  unfolding timelineOf_def using length_generate [of cfg] by (metis length_map)

lemma timeline_nth:
  assumes "timelineOf cfg segs" and "i < length segs"
  shows "(segs ! i)\<lparr>actualElapsed := Num 0\<rparr> = generatedAt cfg i"
proof -
  have "(segs ! i)\<lparr>actualElapsed := Num 0\<rparr> = map (\<lambda>s. s\<lparr>actualElapsed := Num 0\<rparr>) segs ! i"
    using assms(2) by simp
  also have "\<dots> = generateAllTrialSegments cfg ! i"
    using assms(1) by (simp only: timelineOf_def)
  also have "\<dots> = generatedAt cfg i"
    using assms timeline_length [OF assms(1)] by (simp only: nth_generate)
  finally show ?thesis .
qed

lemma timeline_fields:
  assumes "timelineOf cfg segs" and "i < length segs"
  shows "segType (segs ! i) = kindAt (nat (plaintiffWitnessCount cfg) + nat (defenseWitnessCount cfg)) i"
    and "side (segs ! i) = sideAt (nat (plaintiffWitnessCount cfg)) (nat (defenseWitnessCount cfg)) i"
    and "witnessIndex (segs ! i) =
           witnessAt (nat (plaintiffWitnessCount cfg)) (nat (defenseWitnessCount cfg)) i"
    and "isConditional (segs ! i) =
           (kindAt (nat (plaintiffWitnessCount cfg) + nat (defenseWitnessCount cfg)) i = Redirect \<or>
            kindAt (nat (plaintiffWitnessCount cfg) + nat (defenseWitnessCount cfg)) i = Recross)"
    and "segId (segs ! i) = int i"
    and "duration (segs ! i) = duration (generatedAt cfg i)"
    and "segName (segs ! i) = segName (generatedAt cfg i)"
proof -
  note g = timeline_nth [OF assms]
  have "segType ((segs ! i)\<lparr>actualElapsed := Num 0\<rparr>) = segType (segs ! i)" by simp
  then show "segType (segs ! i) = kindAt (nat (plaintiffWitnessCount cfg) + nat (defenseWitnessCount cfg)) i"
    by (simp only: g generatedAt_segType)
  have "side ((segs ! i)\<lparr>actualElapsed := Num 0\<rparr>) = side (segs ! i)" by simp
  then show "side (segs ! i) = sideAt (nat (plaintiffWitnessCount cfg)) (nat (defenseWitnessCount cfg)) i"
    by (simp only: g generatedAt_side)
  have "witnessIndex ((segs ! i)\<lparr>actualElapsed := Num 0\<rparr>) = witnessIndex (segs ! i)" by simp
  then show "witnessIndex (segs ! i) =
           witnessAt (nat (plaintiffWitnessCount cfg)) (nat (defenseWitnessCount cfg)) i"
    by (simp only: g generatedAt_witnessIndex)
  have "isConditional ((segs ! i)\<lparr>actualElapsed := Num 0\<rparr>) = isConditional (segs ! i)" by simp
  then show "isConditional (segs ! i) =
           (kindAt (nat (plaintiffWitnessCount cfg) + nat (defenseWitnessCount cfg)) i = Redirect \<or>
            kindAt (nat (plaintiffWitnessCount cfg) + nat (defenseWitnessCount cfg)) i = Recross)"
    by (simp only: g generatedAt_isConditional)
  have "segId ((segs ! i)\<lparr>actualElapsed := Num 0\<rparr>) = segId (segs ! i)" by simp
  then show "segId (segs ! i) = int i"
    by (simp only: g generatedAt_segId)
  have "duration ((segs ! i)\<lparr>actualElapsed := Num 0\<rparr>) = duration (segs ! i)" by simp
  then show "duration (segs ! i) = duration (generatedAt cfg i)"
    by (simp only: g)
  have "segName ((segs ! i)\<lparr>actualElapsed := Num 0\<rparr>) = segName (segs ! i)" by simp
  then show "segName (segs ! i) = segName (generatedAt cfg i)"
    by (simp only: g)
qed

lemma timeline_update:
  assumes "timelineOf cfg segs"
  shows "timelineOf cfg (segs[i := (segs ! i)\<lparr>actualElapsed := v\<rparr>])"
proof (cases "i < length segs")
  case True
  have "map (\<lambda>s. s\<lparr>actualElapsed := Num 0\<rparr>) (segs[i := (segs ! i)\<lparr>actualElapsed := v\<rparr>])
          = (map (\<lambda>s. s\<lparr>actualElapsed := Num 0\<rparr>) segs)[i := (segs ! i)\<lparr>actualElapsed := Num 0\<rparr>]"
    by (simp add: map_update)
  also have "\<dots> = map (\<lambda>s. s\<lparr>actualElapsed := Num 0\<rparr>) segs"
    using True by (metis list_update_id nth_map)
  finally show ?thesis using assms by (simp only: timelineOf_def)
next
  case False
  then have "segs[i := (segs ! i)\<lparr>actualElapsed := v\<rparr>] = segs"
    by (simp add: list_update_beyond)
  then show ?thesis using assms by (simp only:)
qed

lemma timeline_generate: "timelineOf cfg (generateAllTrialSegments cfg)"
proof -
  have "map (\<lambda>s. s\<lparr>actualElapsed := Num 0\<rparr>) (generateAllTrialSegments cfg)
          = map (\<lambda>s. s) (generateAllTrialSegments cfg)"
    unfolding generate_tabulate map_map
    by (rule map_cong [OF refl]) (simp add: generatedAt_actualElapsed [symmetric])
  then show ?thesis by (simp add: timelineOf_def)
qed


lemma jsub_Num: "jsub (Num a) (Num b) = Num (a - b)"
  by (simp add: jsub_def)

lemma jmin_Num: "jmin (Num a) (Num b) = Num (min a b)"
  by (simp add: jmin_def min_def)

lemma jmax_Num: "jmax (Num a) (Num b) = Num (max a b)"
  by (simp add: jmax_def max_def)

lemma splitOvertime_Num:
  "splitOvertime (Num a) = (Num (max 0 a), Num (max 0 (- a)))"
  by (simp add: splitOvertime_def max_def)

lemma find_first:
  "i < length xs \<Longrightarrow> P (xs ! i) \<Longrightarrow> (\<And>j. j < i \<Longrightarrow> \<not> P (xs ! j)) \<Longrightarrow> find P xs = Some (xs ! i)"
proof (induction xs arbitrary: i)
  case Nil
  then show ?case by simp
next
  case (Cons x xs)
  show ?case
  proof (cases i)
    case 0
    with Cons.prems show ?thesis by simp
  next
    case (Suc k)
    from Cons.prems(3) [of 0] Suc have nx: "\<not> P x" by simp
    have "find P xs = Some (xs ! k)"
    proof (rule Cons.IH)
      show "k < length xs" using Cons.prems(1) Suc by simp
      show "P (xs ! k)" using Cons.prems(2) Suc by simp
      show "\<And>j. j < k \<Longrightarrow> \<not> P (xs ! j)" using Cons.prems(3) [of "Suc _"] Suc by simp
    qed
    with nx Suc show ?thesis by simp
  qed
qed

lemma currentSegment_SomeD:
  assumes "currentSegment st = Some cur"
  shows "0 \<le> currentSegmentIndex st" and "nat (currentSegmentIndex st) < length (trialSegments st)"
    and "cur = trialSegments st ! nat (currentSegmentIndex st)"
  using assms by (auto simp: currentSegment_def nthSegment_def split: if_splits)

text \<open>Where the types sit in a timeline of \<open>T\<close> witnesses.\<close>

lemma kindAt_Rebuttal: "kindAt T i = Rebuttal \<longleftrightarrow> i = 4 + 4 * T"
  by (simp add: kindAt_def)

lemma kindAt_End: "kindAt T i = End \<longleftrightarrow> 4 + 4 * T < i"
  by (auto simp: kindAt_def)

lemma kindAt_Closing: "kindAt T i = Closing \<longleftrightarrow> i = 2 + 4 * T \<or> i = 3 + 4 * T"
  by (auto simp: kindAt_def)

lemma kindAt_Opening: "kindAt T i = Opening \<longleftrightarrow> i < 2"
  by (auto simp: kindAt_def)

lemma timeline_plaintiff_closing:
  assumes tl: "timelineOf cfg segs"
  shows "find (\<lambda>s. segType s = Closing \<and> side s = Some Plaintiff) segs
           = Some (segs ! (2 + 4 * nat (plaintiffWitnessCount cfg) + 4 * nat (defenseWitnessCount cfg)))"
    and "pc \<in> set segs \<Longrightarrow> segType pc = Closing \<Longrightarrow> side pc = Some Plaintiff \<Longrightarrow>
           pc = segs ! (2 + 4 * nat (plaintiffWitnessCount cfg) + 4 * nat (defenseWitnessCount cfg))"
proof -
  let ?P = "nat (plaintiffWitnessCount cfg)" and ?D = "nat (defenseWitnessCount cfg)"
  let ?c = "2 + 4 * ?P + 4 * ?D"
  note len = timeline_length [OF tl]
  have c: "?c < length segs" using len by simp
  have at: "\<And>j. j < length segs \<Longrightarrow>
              (segType (segs ! j) = Closing \<and> side (segs ! j) = Some Plaintiff) = (j = ?c)"
    by (auto simp: timeline_fields(1,2) [OF tl] kindAt_Closing sideAt_def)
  show "find (\<lambda>s. segType s = Closing \<and> side s = Some Plaintiff) segs = Some (segs ! ?c)"
  proof (rule find_first [OF c])
    show "segType (segs ! ?c) = Closing \<and> side (segs ! ?c) = Some Plaintiff"
      using at [OF c] by simp
    fix j assume "j < ?c"
    then show "\<not> (segType (segs ! j) = Closing \<and> side (segs ! j) = Some Plaintiff)"
      using at [of j] c by simp
  qed
  assume "pc \<in> set segs" and p: "segType pc = Closing" "side pc = Some Plaintiff"
  then obtain j where j: "j < length segs" "pc = segs ! j" by (auto simp: in_set_conv_nth)
  with at [OF j(1)] p show "pc = segs ! ?c" by simp
qed

section \<open>Budget accounting\<close>

lemma isNumE: "isNum x \<Longrightarrow> (\<And>a. x = Num a \<Longrightarrow> thesis) \<Longrightarrow> thesis"
  by (cases x) simp_all

lemma chargedTo_nonneg: "0 \<le> chargedTo key s"
  by (simp add: chargedTo_def)

lemma chargedBefore_nonneg: "0 \<le> chargedBefore key n segs"
  unfolding chargedBefore_def by (rule sum_list_nonneg) (auto simp: chargedTo_nonneg)

lemma chargedBefore_Suc:
  "n < length segs \<Longrightarrow>
   chargedBefore key (Suc n) segs = chargedBefore key n segs + chargedTo key (segs ! n)"
  by (simp add: chargedBefore_def take_Suc_conv_app_nth)

lemma chargedBefore_0: "chargedBefore key 0 segs = 0"
  by (simp add: chargedBefore_def)

lemma chargedBefore_cong:
  "(\<And>j. j < n \<Longrightarrow> segs' ! j = segs ! j) \<Longrightarrow> length segs' = length segs \<Longrightarrow>
   chargedBefore key n segs' = chargedBefore key n segs"
proof -
  assume a: "\<And>j. j < n \<Longrightarrow> segs' ! j = segs ! j" and l: "length segs' = length segs"
  have "take n segs' = take n segs"
    by (rule nth_equalityI) (simp_all add: l a)
  then show ?thesis by (simp add: chargedBefore_def)
qed

lemma usedBeforeFrom_charged:
  assumes "\<And>j. j < length segs \<Longrightarrow> index + int j < cur \<Longrightarrow> isNum (actualElapsed (segs ! j))"
  shows "usedBeforeFrom key cur index segs (Num acc) =
           Num (acc + chargedBefore key (nat (cur - index)) segs)"
  using assms
proof (induction segs arbitrary: index acc)
  case Nil
  show ?case by (simp add: chargedBefore_def)
next
  case (Cons s ss)
  have ih: "\<And>acc'. usedBeforeFrom key cur (index + 1) ss (Num acc') =
              Num (acc' + chargedBefore key (nat (cur - (index + 1))) ss)"
  proof (rule Cons.IH)
    fix j assume "j < length ss" "index + 1 + int j < cur"
    then show "isNum (actualElapsed (ss ! j))"
      using Cons.prems [of "Suc j"] by simp
  qed
  show ?case
  proof (cases "index < cur")
    case True
    then have "isNum (actualElapsed s)" using Cons.prems [of 0] by simp
    then obtain a where a: "actualElapsed s = Num a" by (rule isNumE)
    have t: "nat (cur - index) = Suc (nat (cur - (index + 1)))" using True by simp
    show ?thesis
      using True a
      by (simp add: ih t chargedBefore_def chargedTo_def)
  next
    case False
    then have "nat (cur - index) = 0" "nat (cur - (index + 1)) = 0" by simp_all
    then show ?thesis using False by (simp add: ih chargedBefore_def)
  qed
qed

lemma usedBeforeCurrent_charged:
  assumes "\<And>j. j < length (trialSegments st) \<Longrightarrow> int j < currentSegmentIndex st \<Longrightarrow>
             isNum (actualElapsed (trialSegments st ! j))"
  shows "usedBeforeCurrent key st =
           Num (chargedBefore key (nat (currentSegmentIndex st)) (trialSegments st))"
  unfolding usedBeforeCurrent_def
  using usedBeforeFrom_charged [of "trialSegments st" 0 "currentSegmentIndex st" key 0] assms
  by simp

declare deductBackward.simps [simp del]

lemma jlt_Num: "jlt (Num a) (Num b) = (a < b)"
  by simp

lemma contributes_elapsed_update:
  "doesSegmentContributeToBudget (s\<lparr>actualElapsed := v\<rparr>) key = doesSegmentContributeToBudget s key"
  by (simp add: doesSegmentContributeToBudget_def Let_def split: option.splits budgetKey.splits)

text \<open>What the backward walk of the budget edit leaves behind.\<close>

lemma deductBackward_effect:
  assumes "n \<le> length segs" and "0 \<le> e"
    and "\<forall>j < n. isNum (actualElapsed (segs ! j))"
  shows "length (fst (deductBackward (Some key) (int n - 1) (Num e) segs)) = length segs
       \<and> (\<forall>j. n \<le> j \<longrightarrow> fst (deductBackward (Some key) (int n - 1) (Num e) segs) ! j = segs ! j)
       \<and> (\<forall>j < n. \<exists>a a'. actualElapsed (segs ! j) = Num a \<and>
              fst (deductBackward (Some key) (int n - 1) (Num e) segs) ! j
                = (segs ! j)\<lparr>actualElapsed := Num a'\<rparr> \<and>
              (a' = a \<or> (0 \<le> a' \<and> a' < a)))
       \<and> chargedBefore key n (fst (deductBackward (Some key) (int n - 1) (Num e) segs))
           = max 0 (chargedBefore key n segs - e)"
  using assms
proof (induction n arbitrary: e segs)
  case 0
  have "fst (deductBackward (Some key) (int 0 - 1) (Num e) segs) = segs"
    by (simp add: deductBackward.simps)
  then show ?case using 0 by (simp add: chargedBefore_0)
next
  case (Suc n)
  let ?W = "fst (deductBackward (Some key) (int (Suc n) - 1) (Num e) segs)"
  have n: "n < length segs" using Suc.prems(1) by simp
  from Suc.prems(3) obtain a where a: "actualElapsed (segs ! n) = Num a"
    by (auto elim: isNumE)
  have nth: "nthSegment segs (int n) = Some (segs ! n)"
    using n by (simp add: nthSegment_def)
  have fin: "\<forall>j < n. isNum (actualElapsed (segs ! j))"
    using Suc.prems(3) by simp
  have keep: "\<exists>x x'. actualElapsed (segs ! j) = Num x \<and> segs ! j = (segs ! j)\<lparr>actualElapsed := Num x'\<rparr>
                 \<and> (x' = x \<or> (0 \<le> x' \<and> x' < x))" if "j < Suc n" for j
  proof -
    from Suc.prems(3) that obtain x where "actualElapsed (segs ! j) = Num x"
      by (auto elim: isNumE)
    then show ?thesis by (intro exI [of _ x]) simp
  qed
  show ?case
  proof (cases "0 < e")
    case False
    then have e0: "e = 0" using Suc.prems(2) by simp
    have W: "?W = segs" using e0 by (simp add: deductBackward.simps)
    show ?thesis
      unfolding W using e0 keep chargedBefore_nonneg [of key "Suc n" segs] by simp
  next
    case True
    show ?thesis
    proof (cases "doesSegmentContributeToBudget (segs ! n) (Some key) \<and> 0 < a")
      case False
      have W: "?W = fst (deductBackward (Some key) (int n - 1) (Num e) segs)"
        using True False a nth by (subst deductBackward.simps) auto
      note ih = Suc.IH [OF less_imp_le [OF n] Suc.prems(2) fin]
      have c0: "chargedTo key (segs ! n) = 0" using False a by (auto simp: chargedTo_def)
      have same: "fst (deductBackward (Some key) (int n - 1) (Num e) segs) ! n = segs ! n"
        using ih by simp
      have len: "length (fst (deductBackward (Some key) (int n - 1) (Num e) segs)) = length segs"
        using ih by simp
      have "chargedBefore key (Suc n) ?W = max 0 (chargedBefore key (Suc n) segs - e)"
        unfolding W using ih n c0 same len by (simp add: chargedBefore_Suc)
      moreover have "\<forall>j. Suc n \<le> j \<longrightarrow> ?W ! j = segs ! j"
        unfolding W using ih by simp
      moreover have "\<forall>j < Suc n. \<exists>x x'. actualElapsed (segs ! j) = Num x \<and>
              ?W ! j = (segs ! j)\<lparr>actualElapsed := Num x'\<rparr> \<and> (x' = x \<or> (0 \<le> x' \<and> x' < x))"
      proof (intro allI impI)
        fix j assume "j < Suc n"
        then consider "j < n" | "j = n" by linarith
        then show "\<exists>x x'. actualElapsed (segs ! j) = Num x \<and>
              ?W ! j = (segs ! j)\<lparr>actualElapsed := Num x'\<rparr> \<and> (x' = x \<or> (0 \<le> x' \<and> x' < x))"
        proof cases
          case 1
          then show ?thesis unfolding W using ih by blast
        next
          case 2
          then show ?thesis unfolding W using same keep [of n] by simp
        qed
      qed
      ultimately show ?thesis unfolding W using len by blast
    next
      case c: True
      let ?d = "min e a"
      let ?segs1 = "segs[n := (segs ! n)\<lparr>actualElapsed := Num (a - ?d)\<rparr>]"
      have W: "?W = fst (deductBackward (Some key) (int n - 1) (Num (e - ?d)) ?segs1)"
        using True c a nth
        by (subst deductBackward.simps) (simp add: Let_def jmin_Num jsub_Num)
      have fin1: "\<forall>j < n. isNum (actualElapsed (?segs1 ! j))"
        using fin by simp
      have n1: "n \<le> length ?segs1" using n by simp
      have e1: "0 \<le> e - ?d" by simp
      note ih = Suc.IH [OF n1 e1 fin1]
      have len: "length (fst (deductBackward (Some key) (int n - 1) (Num (e - ?d)) ?segs1)) = length segs"
        using ih by simp
      have atn: "fst (deductBackward (Some key) (int n - 1) (Num (e - ?d)) ?segs1) ! n
                   = (segs ! n)\<lparr>actualElapsed := Num (a - ?d)\<rparr>"
        using ih n by simp
      have cb: "chargedBefore key n ?segs1 = chargedBefore key n segs"
        by (rule chargedBefore_cong) simp_all
      have cn: "chargedTo key (segs ! n) = a" using c a by (simp add: chargedTo_def)
      have cn1: "chargedTo key ((segs ! n)\<lparr>actualElapsed := Num (a - ?d)\<rparr>) = a - ?d"
        using c by (simp add: chargedTo_def contributes_elapsed_update)
      have "chargedBefore key (Suc n) ?W = max 0 (chargedBefore key (Suc n) segs - e)"
        unfolding W
        using ih n len atn cb cn cn1 chargedBefore_nonneg [of key n segs]
        by (simp add: chargedBefore_Suc)
      moreover have "\<forall>j. Suc n \<le> j \<longrightarrow> ?W ! j = segs ! j"
        unfolding W using ih by simp
      moreover have "\<forall>j < Suc n. \<exists>x x'. actualElapsed (segs ! j) = Num x \<and>
              ?W ! j = (segs ! j)\<lparr>actualElapsed := Num x'\<rparr> \<and> (x' = x \<or> (0 \<le> x' \<and> x' < x))"
      proof (intro allI impI)
        fix j assume "j < Suc n"
        then consider "j < n" | "j = n" by linarith
        then show "\<exists>x x'. actualElapsed (segs ! j) = Num x \<and>
              ?W ! j = (segs ! j)\<lparr>actualElapsed := Num x'\<rparr> \<and> (x' = x \<or> (0 \<le> x' \<and> x' < x))"
        proof cases
          case 1
          then have eq: "?segs1 ! j = segs ! j" by simp
          from ih 1 obtain x x' where
            "actualElapsed (?segs1 ! j) = Num x"
            "fst (deductBackward (Some key) (int n - 1) (Num (e - ?d)) ?segs1) ! j
               = (?segs1 ! j)\<lparr>actualElapsed := Num x'\<rparr>"
            "x' = x \<or> (0 \<le> x' \<and> x' < x)"
            by blast
          then show ?thesis unfolding W eq by blast
        next
          case 2
          have "0 \<le> a - ?d \<and> a - ?d < a" using c True by simp
          then show ?thesis unfolding W 2 using atn a by blast
        qed
      qed
      ultimately show ?thesis unfolding W using len by blast
    qed
  qed
qed

section \<open>The edit modal\<close>

lemma parseInt10_cases: "parseInt10 v = NaN \<or> (\<exists>a. parseInt10 v = Num a)"
  by (simp add: parseInt10_def Let_def)

lemma typed_minutes: "\<exists>m\<ge>0. jmax (Num 0) (orZero (parseInt10 v)) = Num m"
  using parseInt10_cases [of v] by (auto simp: orZero_def jmax_Num)

lemma typed_seconds: "\<exists>s\<ge>0. jmax (Num 0) (jmin (Num 59) (orZero (parseInt10 v))) = Num s"
  using parseInt10_cases [of v] by (auto simp: orZero_def jmax_Num jmin_Num)

lemma typeInto_fields:
  "trialSegments (typeInto c m s st) = trialSegments st"
  "currentSegmentIndex (typeInto c m s st) = currentSegmentIndex st"
  "currentSegmentElapsed (typeInto c m s st) = currentSegmentElapsed st"
  "trialConfig (typeInto c m s st) = trialConfig st"
  "editModalContext (typeInto c m s st) = Some c"
  "showRedirectPrompt (typeInto c m s st) = showRedirectPrompt st"
  "showRecrossPrompt (typeInto c m s st) = showRecrossPrompt st"
  "isRunning (typeInto c m s st) = False"
  by (simp_all add: typeInto_def changeEditTimeSeconds_def changeEditTimeMinutes_def
        openEditModal_def Let_def)

lemma typeInto_currentSegment: "currentSegment (typeInto c m s st) = currentSegment st"
  by (simp add: currentSegment_def typeInto_fields)

lemma typed_time: "\<exists>r\<ge>0. newTimeInSecondsFromModal (typeInto c m s st) = Num r"
proof -
  obtain a where a: "0 \<le> a" "jmax (Num 0) (orZero (parseInt10 m)) = Num a"
    using typed_minutes by blast
  obtain b where b: "0 \<le> b" "jmax (Num 0) (jmin (Num 59) (orZero (parseInt10 s))) = Num b"
    using typed_seconds by blast
  have "newTimeInSecondsFromModal (typeInto c m s st) = Num (a * 60 + b)"
    by (simp add: newTimeInSecondsFromModal_def typeInto_def changeEditTimeSeconds_def
          changeEditTimeMinutes_def a b)
  moreover have "0 \<le> a * 60 + b" using a(1) b(1) by simp
  ultimately show ?thesis by blast
qed

lemma closeEditModal_fields:
  "trialSegments (closeEditModal st) = trialSegments st"
  "currentSegmentIndex (closeEditModal st) = currentSegmentIndex st"
  "currentSegmentElapsed (closeEditModal st) = currentSegmentElapsed st"
  "trialConfig (closeEditModal st) = trialConfig st"
  by (simp_all add: closeEditModal_def)

lemma remainingEdit_budgetD:
  assumes "remainingEditContexts st = [BudgetEdit (Some key) used shown]"
  shows "\<exists>cur. currentSegment st = Some cur" and "used = usedBeforeCurrent key st"
  using assms
  by (auto simp: remainingEditContexts_def displayRemainingTime_def Let_def
           split: option.splits if_splits prod.splits)


lemma editWith_budget_undo:
  assumes "newTimeInSecondsFromModal (typeInto (BudgetEdit (Some key) (Num U) shown) m s st) = Num r"
    and "configuredBudget (trialConfig st) (Some key) = Num budget"
    and "budget - r - U < 0"
  shows "trialSegments (editWith (BudgetEdit (Some key) (Num U) shown) m s st)
           = fst (deductBackward (Some key) (currentSegmentIndex st - 1) (Num (- (budget - r - U)))
               (trialSegments st))"
    and "currentSegmentElapsed (editWith (BudgetEdit (Some key) (Num U) shown) m s st) = Num 0"
  using assms
  by (simp_all add: editWith_def handleEditTimeSave_def handleEditTimeSaveIn_def runUpdater_def typeInto_fields closeEditModal_fields
        Let_def jsub_Num)

lemma editWith_budget_fits:
  assumes "newTimeInSecondsFromModal (typeInto (BudgetEdit (Some key) (Num U) shown) m s st) = Num r"
    and "configuredBudget (trialConfig st) (Some key) = Num budget"
    and "0 \<le> budget - r - U"
  shows "trialSegments (editWith (BudgetEdit (Some key) (Num U) shown) m s st) = trialSegments st"
    and "currentSegmentElapsed (editWith (BudgetEdit (Some key) (Num U) shown) m s st)
           = Num (min (budget - r - U) (budget - U))"
  using assms
  by (simp_all add: editWith_def handleEditTimeSave_def handleEditTimeSaveIn_def runUpdater_def typeInto_fields closeEditModal_fields
        Let_def jsub_Num jmin_Num)

lemma editWith_budget_frame:
  "trialConfig (editWith (BudgetEdit key used shown) m s st) = trialConfig st"
  "currentSegmentIndex (editWith (BudgetEdit key used shown) m s st) = currentSegmentIndex st"
  by (simp_all add: editWith_def handleEditTimeSave_def handleEditTimeSaveIn_def runUpdater_def typeInto_fields closeEditModal_fields
        Let_def)


lemma elapsed_update_same: "actualElapsed s = v \<Longrightarrow> s\<lparr>actualElapsed := v\<rparr> = s"
  by (cases s) simp

lemma budget_edit_result:
  assumes ctx: "remainingEditContexts st = [BudgetEdit (Some key) used shown]"
    and fin: "\<forall>j < nat (currentSegmentIndex st). isNum (actualElapsed (trialSegments st ! j))"
    and r: "newTimeInSecondsFromModal (typeInto (BudgetEdit (Some key) used shown) minutes seconds st)
              = Num r"
    and tot: "configuredBudget (trialConfig st) (Some key) = Num budget"
    and le: "r \<le> budget"
    and st': "st' = editWith (BudgetEdit (Some key) used shown) minutes seconds st"
  shows "jadd (usedBeforeCurrent key st') (currentSegmentElapsed st') = Num (budget - r)
       \<and> length (trialSegments st') = length (trialSegments st)
       \<and> (\<forall>j < length (trialSegments st).
             trialSegments st' ! j = trialSegments st ! j \<or>
             (\<exists>a a'. actualElapsed (trialSegments st ! j) = Num a \<and>
                      trialSegments st' ! j = (trialSegments st ! j)\<lparr>actualElapsed := Num a'\<rparr> \<and>
                      0 \<le> a' \<and> a' < a))"
proof -
  let ?segs = "trialSegments st" and ?n = "nat (currentSegmentIndex st)"
  let ?U = "chargedBefore key ?n ?segs"
  from remainingEdit_budgetD [OF ctx] obtain cur where
    cur: "currentSegment st = Some cur" and used: "used = usedBeforeCurrent key st"
    by blast
  note c = currentSegment_SomeD [OF cur]
  have r0: "0 \<le> r" using typed_time [of "BudgetEdit (Some key) used shown" minutes seconds st] r by auto
  have usedU: "used = Num ?U"
    unfolding used using fin c(1) by (intro usedBeforeCurrent_charged) simp
  note r' = r [unfolded usedU]
  note st'' = st' [unfolded usedU]
  have idx: "currentSegmentIndex st - 1 = int ?n - 1" using c(1) by simp
  have nle: "?n \<le> length ?segs" using c(2) by simp
  have ix: "currentSegmentIndex st' = currentSegmentIndex st"
    unfolding st' by (rule editWith_budget_frame)
  consider (undo) "budget - r - ?U < 0" | (fits) "0 \<le> budget - r - ?U" by linarith
  then show ?thesis
  proof cases
    case undo
    let ?e = "- (budget - r - ?U)"
    let ?W = "fst (deductBackward (Some key) (int ?n - 1) (Num ?e) ?segs)"
    have e0: "0 \<le> ?e" using undo by simp
    note eff = deductBackward_effect [OF nle e0 fin, of key]
    have segs': "trialSegments st' = ?W"
      unfolding st'' editWith_budget_undo(1) [OF r' tot undo] idx ..
    have el': "currentSegmentElapsed st' = Num 0"
      unfolding st'' by (rule editWith_budget_undo(2) [OF r' tot undo])
    have len: "length ?W = length ?segs" using eff by blast
    have fin': "isNum (actualElapsed (trialSegments st' ! j))"
      if "j < length (trialSegments st')" "int j < currentSegmentIndex st'" for j
    proof -
      from that have "j < ?n" using ix by simp
      with eff obtain a a' where "?W ! j = (?segs ! j)\<lparr>actualElapsed := Num a'\<rparr>" by blast
      then show ?thesis by (simp add: segs')
    qed
    have "usedBeforeCurrent key st' = Num (chargedBefore key (nat (currentSegmentIndex st')) (trialSegments st'))"
      by (rule usedBeforeCurrent_charged) (rule fin')
    also have "chargedBefore key (nat (currentSegmentIndex st')) (trialSegments st') = chargedBefore key ?n ?W"
      by (simp only: ix segs')
    also have "\<dots> = max 0 (?U - ?e)" using eff by blast
    also have "\<dots> = budget - r" using le by simp
    finally have 1: "jadd (usedBeforeCurrent key st') (currentSegmentElapsed st') = Num (budget - r)"
      by (simp add: el')
    have 2: "length (trialSegments st') = length ?segs" by (simp only: segs' len)
    have 3: "trialSegments st' ! j = ?segs ! j \<or>
           (\<exists>a a'. actualElapsed (?segs ! j) = Num a \<and>
                    trialSegments st' ! j = (?segs ! j)\<lparr>actualElapsed := Num a'\<rparr> \<and>
                    0 \<le> a' \<and> a' < a)" if "j < length ?segs" for j
    proof (cases "j < ?n")
      case True
      with eff obtain a a' where a: "actualElapsed (?segs ! j) = Num a"
        "?W ! j = (?segs ! j)\<lparr>actualElapsed := Num a'\<rparr>" "a' = a \<or> (0 \<le> a' \<and> a' < a)"
        by blast
      from a(3) show ?thesis
      proof
        assume "a' = a"
        then have "?W ! j = ?segs ! j" using a(1,2) by (simp add: elapsed_update_same)
        then show ?thesis by (simp only: segs' simp_thms)
      next
        assume "0 \<le> a' \<and> a' < a"
        then show ?thesis unfolding segs' using a(1,2) by blast
      qed
    next
      case False
      then have "?n \<le> j" by simp
      then have "?W ! j = ?segs ! j" using eff by blast
      then show ?thesis by (simp only: segs' simp_thms)
    qed
    from 1 2 3 show ?thesis by blast
  next
    case fits
    have segs': "trialSegments st' = ?segs"
      unfolding st'' by (rule editWith_budget_fits(1) [OF r' tot fits])
    have "currentSegmentElapsed st' = Num (min (budget - r - ?U) (budget - ?U))"
      unfolding st'' by (rule editWith_budget_fits(2) [OF r' tot fits])
    then have el': "currentSegmentElapsed st' = Num (budget - r - ?U)"
      using r0 by (simp add: min_def)
    have "usedBeforeCurrent key st' = Num (chargedBefore key (nat (currentSegmentIndex st')) (trialSegments st'))"
    proof (rule usedBeforeCurrent_charged)
      fix j assume "j < length (trialSegments st')" "int j < currentSegmentIndex st'"
      then show "isNum (actualElapsed (trialSegments st' ! j))"
        using fin by (simp add: ix segs')
    qed
    then have "usedBeforeCurrent key st' = Num ?U" by (simp only: ix segs')
    then show ?thesis by (simp add: el' segs')
  qed
qed

lemma list_all_take_nth:
  "list_all P (take n xs) \<Longrightarrow> n \<le> length xs \<Longrightarrow> \<forall>j < n. P (xs ! j)"
  by (simp add: list_all_length)

section \<open>Navigation\<close>

declare skipForward.simps [simp del] skipBackward.simps [simp del] markSkipped.simps [simp del]

lemma skipForward_ge: "n \<le> skipForward segs cur n"
proof (induction segs cur n rule: skipForward.induct)
  case (1 segs cur n)
  show ?case
    using 1 by (subst skipForward.simps) (auto split: option.splits)
qed

lemma skipForward_le:
  "n \<le> int m \<Longrightarrow> m < length segs \<Longrightarrow> \<not> isConditional (segs ! m) \<Longrightarrow>
   skipForward segs cur n \<le> int m"
proof (induction segs cur n rule: skipForward.induct)
  case (1 segs cur n)
  show ?case
  proof (cases "n = int m")
    case True
    then show ?thesis using 1(3,4)
      by (subst skipForward.simps) (simp add: nthSegment_def)
  next
    case False
    with 1(2) have "n + 1 \<le> int m" by simp
    with 1 show ?thesis
      by (subst skipForward.simps) (auto split: option.splits)
  qed
qed

lemma skipBackward_le: "skipBackward segs cur n \<le> n"
proof (induction segs cur n rule: skipBackward.induct)
  case (1 segs cur n)
  show ?case
    using 1 by (subst skipBackward.simps) (auto split: option.splits)
qed

lemma skipBackward_ge:
  "int m \<le> n \<Longrightarrow> m < length segs \<Longrightarrow> \<not> isConditional (segs ! m) \<Longrightarrow>
   int m \<le> skipBackward segs cur n"
proof (induction segs cur n rule: skipBackward.induct)
  case (1 segs cur n)
  show ?case
  proof (cases "n = int m")
    case True
    then show ?thesis using 1(3,4)
      by (subst skipBackward.simps) (simp add: nthSegment_def)
  next
    case False
    with 1(2) have "int m \<le> n - 1" by simp
    with 1 show ?thesis
      by (subst skipBackward.simps) (auto split: option.splits)
  qed
qed

text \<open>Neighbours in a timeline.\<close>

lemma kindAt_witness:
  assumes "n < T" and "r < 4"
  shows "kindAt T (2 + 4 * n + r) =
           (if r = 0 then Direct else if r = 1 then Cross else if r = 2 then Redirect else Recross)"
proof -
  have 1: "\<not> 2 + 4 * n + r < 2" "2 + 4 * n + r < 2 + 4 * T" using assms by simp_all
  have 2: "(2 + 4 * n + r - 2) mod 4 = r" using assms by simp
  show ?thesis unfolding kindAt_def by (simp only: 1 2 if_True if_False)
qed

lemma kindAt_exam:
  assumes "kindAt T i = Direct \<or> kindAt T i = Cross \<or> kindAt T i = Redirect \<or> kindAt T i = Recross"
  obtains n r where "n < T" "r < 4" "i = 2 + 4 * n + r"
proof -
  have z: "2 \<le> i \<and> i < 2 + 4 * T"
  proof (rule ccontr)
    assume "\<not> (2 \<le> i \<and> i < 2 + 4 * T)"
    then consider "i < 2" | "2 + 4 * T \<le> i" by linarith
    then show False
    proof cases
      case 1
      then have "kindAt T i = Opening" by (simp add: kindAt_def)
      with assms show False by simp
    next
      case 2
      then have "kindAt T i = Closing \<or> kindAt T i = Rebuttal \<or> kindAt T i = End"
        by (simp add: kindAt_def)
      with assms show False by auto
    qed
  qed
  have "i - 2 = 4 * ((i - 2) div 4) + (i - 2) mod 4" by simp
  with z have i: "i = 2 + 4 * ((i - 2) div 4) + (i - 2) mod 4" by linarith
  have "i - 2 < T * 4" using z by linarith
  then have n: "(i - 2) div 4 < T" by (rule less_mult_imp_div_less)
  have r: "(i - 2) mod 4 < 4" by simp
  from n r i show thesis by (rule that)
qed

lemma kindAt_Cross_next:
  assumes "kindAt T i = Cross"
  shows "i + 3 < 6 + 4 * T" and "kindAt T (i + 3) = Direct \<or> kindAt T (i + 3) = Closing"
    and "kindAt T (i + 1) = Redirect"
proof -
  have ex: "kindAt T i = Direct \<or> kindAt T i = Cross \<or> kindAt T i = Redirect \<or> kindAt T i = Recross"
    using assms by simp
  obtain n r where nr: "n < T" "r < 4" "i = 2 + 4 * n + r"
    by (rule kindAt_exam [OF ex])
  have r: "r = 1"
  proof (rule ccontr)
    assume "r \<noteq> 1"
    with kindAt_witness [OF nr(1,2)] assms nr(3) show False by (simp split: if_splits)
  qed
  show "i + 3 < 6 + 4 * T" using nr r by simp
  have "i + 1 = 2 + 4 * n + 2" using nr(3) r by simp
  then show "kindAt T (i + 1) = Redirect"
    using kindAt_witness [OF nr(1), of 2] by simp
  show "kindAt T (i + 3) = Direct \<or> kindAt T (i + 3) = Closing"
  proof (cases "Suc n < T")
    case True
    have "i + 3 = 2 + 4 * Suc n + 0" using nr(3) r by simp
    then show ?thesis using kindAt_witness [OF True, of 0] by simp
  next
    case False
    with nr(1) have "i + 3 = 2 + 4 * T" using nr(3) r by simp
    then show ?thesis by (simp add: kindAt_def)
  qed
qed

lemma sideAt_witness:
  assumes "n < P + D" and "r < 4"
  shows "sideAt P D (2 + 4 * n + r) =
           (if n < P then (if even r then Some Plaintiff else Some Defense)
            else (if even r then Some Defense else Some Plaintiff))"
proof -
  have 1: "2 + 4 * n + r \<noteq> 0" "2 + 4 * n + r \<noteq> 1" "2 + 4 * n + r < 2 + 4 * P + 4 * D"
    using assms by simp_all
  have 2: "(2 + 4 * n + r < 2 + 4 * P) = (n < P)" using assms(2) by auto
  have 3: "even (2 + 4 * n + r - 2) = even r" by simp
  show ?thesis unfolding sideAt_def by (simp only: 1 2 3 if_True if_False)
qed

lemma kindAt_Redirect_next:
  assumes "kindAt (P + D) i = Redirect"
  shows "i + 1 < 6 + 4 * (P + D)" and "kindAt (P + D) (i + 1) = Recross"
    and "sideAt P D (i + 1) \<noteq> sideAt P D i"
proof -
  have ex: "kindAt (P + D) i = Direct \<or> kindAt (P + D) i = Cross \<or>
            kindAt (P + D) i = Redirect \<or> kindAt (P + D) i = Recross"
    using assms by simp
  obtain n r where nr: "n < P + D" "r < 4" "i = 2 + 4 * n + r"
    by (rule kindAt_exam [OF ex])
  have r: "r = 2"
  proof (rule ccontr)
    assume "r \<noteq> 2"
    with kindAt_witness [OF nr(1,2)] assms nr(3) show False by (simp split: if_splits)
  qed
  show "i + 1 < 6 + 4 * (P + D)" using nr r by simp
  have i1: "i + 1 = 2 + 4 * n + 3" and i0: "i = 2 + 4 * n + 2" using nr(3) r by simp_all
  show "kindAt (P + D) (i + 1) = Recross"
    unfolding i1 using kindAt_witness [OF nr(1), of 3] by simp
  show "sideAt P D (i + 1) \<noteq> sideAt P D i"
    unfolding i1 unfolding i0
    using sideAt_witness [OF nr(1), of 3] sideAt_witness [OF nr(1), of 2] by simp
qed

section \<open>Accounting along a run\<close>

lemma jsum_Num:
  "list_all isNum xs \<Longrightarrow> jsum xs = Num (sum_list (map secondsOf xs))"
proof (induction xs)
  case Nil
  show ?case by (simp add: jsum_def)
next
  case (Cons x xs)
  then obtain a where "x = Num a" by (auto elim: isNumE)
  with Cons show ?case by (simp add: jsum_def)
qed

lemma recordedTotal_Num:
  assumes "list_all (\<lambda>s. isNum (actualElapsed s)) (trialSegments st)"
  shows "recordedTotal st = Num (recordedSeconds (trialSegments st))"
proof -
  have "list_all isNum (map actualElapsed (trialSegments st))"
    using assms by (simp add: list_all_iff)
  then show ?thesis
    by (simp add: recordedTotal_def recordedSeconds_def jsum_Num comp_def)
qed

lemma accountedTime_Num:
  assumes "list_all (\<lambda>s. isNum (actualElapsed s)) (trialSegments st)"
    and "currentSegment st = Some cur" and "currentSegmentElapsed st = Num e"
  shows "accountedTime st =
           Num (recordedSeconds (trialSegments st) + (e - secondsOf (actualElapsed cur)))"
proof -
  note c = currentSegment_SomeD [OF assms(2)]
  have "isNum (actualElapsed cur)"
    using assms(1) c(2,3) by (simp add: list_all_length)
  then obtain a where a: "actualElapsed cur = Num a" by (rule isNumE)
  show ?thesis
    by (simp add: accountedTime_def recordedTotal_Num [OF assms(1)] uncommittedElapsed_def
          assms(2,3) a jsub_Num)
qed

lemma recordedSeconds_update:
  "i < length segs \<Longrightarrow>
   recordedSeconds (segs[i := (segs ! i)\<lparr>actualElapsed := Num e\<rparr>])
     = recordedSeconds segs - secondsOf (actualElapsed (segs ! i)) + e"
proof (induction segs arbitrary: i)
  case Nil
  then show ?case by simp
next
  case (Cons s segs)
  show ?case
  proof (cases i)
    case 0
    then show ?thesis by (simp add: recordedSeconds_def)
  next
    case (Suc k)
    with Cons.prems have "k < length segs" by simp
    from Cons.IH [OF this] Suc show ?thesis by (simp add: recordedSeconds_def)
  qed
qed

lemma allNum_update:
  "list_all (\<lambda>s. isNum (actualElapsed s)) segs \<Longrightarrow>
   list_all (\<lambda>s. isNum (actualElapsed s)) (segs[i := (segs ! i)\<lparr>actualElapsed := Num e\<rparr>])"
proof -
  assume a: "list_all (\<lambda>s. isNum (actualElapsed s)) segs"
  have "isNum (actualElapsed (segs[i := (segs ! i)\<lparr>actualElapsed := Num e\<rparr>] ! n))"
    if "n < length segs" for n
  proof (cases "n = i")
    case True
    with that show ?thesis by simp
  next
    case False
    with that a show ?thesis by (simp add: list_all_length)
  qed
  then show ?thesis by (simp add: list_all_length)
qed

text \<open>The commit of the live counter.\<close>

lemma save_effect:
  assumes "currentSegment st = Some cur" and "segType cur \<noteq> End"
  shows "saveCurrentSegmentTime st =
           (trialSegments st)[nat (currentSegmentIndex st) :=
              (trialSegments st ! nat (currentSegmentIndex st))
                \<lparr>actualElapsed := currentSegmentElapsed st\<rparr>]"
  using assms by (simp add: saveCurrentSegmentTime_def)

lemma orZero_Num: "orZero (Num a) = Num a"
  by (simp add: orZero_def)

lemma stored_Num:
  assumes "list_all (\<lambda>s. isNum (actualElapsed s)) segs" and "0 \<le> j" and "nat j < length segs"
  shows "storedElapsedOrZero segs j = actualElapsed (segs ! nat j)"
    and "isNum (actualElapsed (segs ! nat j))"
proof -
  show n: "isNum (actualElapsed (segs ! nat j))"
    using assms(1,3) by (simp add: list_all_length)
  then obtain a where "actualElapsed (segs ! nat j) = Num a" by (rule isNumE)
  moreover have "j < int (length segs)" using assms(2,3) by linarith
  ultimately show "storedElapsedOrZero segs j = actualElapsed (segs ! nat j)"
    using assms(2) by (simp add: storedElapsedOrZero_def nthSegment_def orZero_Num)
qed

text \<open>
  Leaving the active segment for another one, with or without a commit, keeps the
  accounted time when the new counter is the record of the new segment.
\<close>

lemma land_committed:
  assumes num: "list_all (\<lambda>s. isNum (actualElapsed s)) (trialSegments st)"
    and cur: "currentSegment st = Some cur" and e: "currentSegmentElapsed st = Num e"
    and j: "0 \<le> j" "nat j < length (trialSegments st)" "j \<noteq> currentSegmentIndex st"
    and segs': "trialSegments st' =
                 (trialSegments st)[nat (currentSegmentIndex st) := cur\<lparr>actualElapsed := Num e\<rparr>]"
    and idx': "currentSegmentIndex st' = j"
    and el': "currentSegmentElapsed st' = actualElapsed (trialSegments st ! nat j)"
  shows "accountedTime st' = accountedTime st"
    and "committed st'"
    and "list_all (\<lambda>s. isNum (actualElapsed s)) (trialSegments st')"
    and "isNum (currentSegmentElapsed st')"
    and "currentSegment st' = Some (trialSegments st ! nat j)"
proof -
  note c = currentSegment_SomeD [OF cur]
  let ?i = "nat (currentSegmentIndex st)"
  have ne: "nat j \<noteq> ?i" using j(1,3) c(1) by simp
  have segs'': "trialSegments st' = (trialSegments st)[?i := (trialSegments st ! ?i)\<lparr>actualElapsed := Num e\<rparr>]"
    using segs' c(3) by simp
  show num': "list_all (\<lambda>s. isNum (actualElapsed s)) (trialSegments st')"
    unfolding segs'' using num by (rule allNum_update)
  have at: "trialSegments st' ! nat j = trialSegments st ! nat j"
    unfolding segs'' using ne by simp
  show cur': "currentSegment st' = Some (trialSegments st ! nat j)"
    using j(1,2) at by (simp add: currentSegment_def nthSegment_def idx' segs'')
  have "isNum (actualElapsed (trialSegments st ! nat j))"
    using num j(2) by (simp add: list_all_length)
  then obtain a where a: "actualElapsed (trialSegments st ! nat j) = Num a" by (rule isNumE)
  show "isNum (currentSegmentElapsed st')" by (simp add: el' a)
  show "committed st'" by (simp add: committed_def cur' el')
  have "accountedTime st' = Num (recordedSeconds (trialSegments st') + (a - a))"
    using accountedTime_Num [OF num' cur', of a] el' a by simp
  also have "recordedSeconds (trialSegments st') =
               recordedSeconds (trialSegments st) - secondsOf (actualElapsed cur) + e"
    unfolding segs'' using recordedSeconds_update [OF c(2)] c(3) by simp
  finally show "accountedTime st' = accountedTime st"
    using accountedTime_Num [OF num cur e] by simp
qed

lemma runInvariantD:
  assumes "runInvariant n st"
  shows "timelineOf (trialConfig st) (trialSegments st)"
    and "\<exists>cur. currentSegment st = Some cur"
    and "list_all (\<lambda>s. isNum (actualElapsed s)) (trialSegments st)"
    and "\<exists>e. currentSegmentElapsed st = Num e"
    and "accountedTime st = Num (int n)"
    and "\<not> showEditModal st"
    and "showRedirectPrompt st \<Longrightarrow>
           \<not> isRunning st \<and> committed st \<and> \<not> showRecrossPrompt st \<and> currentType st = Some Cross"
    and "showRecrossPrompt st \<Longrightarrow>
           \<not> isRunning st \<and> committed st \<and> currentType st = Some Redirect"
  using assms by (auto simp: runInvariant_def elim: isNumE)

lemma list_update_committed:
  assumes "currentSegment st = Some cur" and "actualElapsed cur = Num e"
  shows "(trialSegments st)[nat (currentSegmentIndex st) := cur\<lparr>actualElapsed := Num e\<rparr>]
           = trialSegments st"
proof -
  note c = currentSegment_SomeD [OF assms(1)]
  have "cur\<lparr>actualElapsed := Num e\<rparr> = trialSegments st ! nat (currentSegmentIndex st)"
    using assms(2) c(3) by (simp add: elapsed_update_same)
  then show ?thesis by simp
qed

text \<open>Landing on another segment with the prompts closed.\<close>

lemma inv_land:
  assumes inv: "runInvariant n st"
    and cur: "currentSegment st = Some cur" and e: "currentSegmentElapsed st = Num e"
    and j: "0 \<le> j" "nat j < length (trialSegments st)" "j \<noteq> currentSegmentIndex st"
    and cfg': "trialConfig st' = trialConfig st"
    and segs': "trialSegments st' =
                 (trialSegments st)[nat (currentSegmentIndex st) := cur\<lparr>actualElapsed := Num e\<rparr>]"
    and idx': "currentSegmentIndex st' = j"
    and el': "currentSegmentElapsed st' = actualElapsed (trialSegments st ! nat j)"
    and flags: "\<not> showEditModal st'" "\<not> showRedirectPrompt st'" "\<not> showRecrossPrompt st'"
  shows "runInvariant n st'"
proof -
  note d = runInvariantD [OF inv]
  note c = currentSegment_SomeD [OF cur]
  note l = land_committed [OF d(3) cur e j segs' idx' el']
  have "timelineOf (trialConfig st') (trialSegments st')"
    unfolding cfg' segs' c(3) using d(1) by (rule timeline_update)
  then show ?thesis
    using l d(5) flags by (simp add: runInvariant_def)
qed

text \<open>Committing and opening a prompt.\<close>

lemma inv_prompt:
  assumes inv: "runInvariant n st"
    and cur: "currentSegment st = Some cur" and e: "currentSegmentElapsed st = Num e"
    and cfg': "trialConfig st' = trialConfig st"
    and segs': "trialSegments st' =
                 (trialSegments st)[nat (currentSegmentIndex st) := cur\<lparr>actualElapsed := Num e\<rparr>]"
    and idx': "currentSegmentIndex st' = currentSegmentIndex st"
    and el': "currentSegmentElapsed st' = Num e"
    and flags: "\<not> showEditModal st'" "\<not> isRunning st'"
    and prompts: "(showRedirectPrompt st' \<and> \<not> showRecrossPrompt st' \<and> segType cur = Cross) \<or>
                  (showRecrossPrompt st' \<and> \<not> showRedirectPrompt st' \<and> segType cur = Redirect)"
  shows "runInvariant n st'"
proof -
  note d = runInvariantD [OF inv]
  note c = currentSegment_SomeD [OF cur]
  let ?i = "nat (currentSegmentIndex st)"
  have segs'': "trialSegments st' = (trialSegments st)[?i := (trialSegments st ! ?i)\<lparr>actualElapsed := Num e\<rparr>]"
    using segs' c(3) by simp
  have tl: "timelineOf (trialConfig st') (trialSegments st')"
    unfolding cfg' segs'' using d(1) by (rule timeline_update)
  have num': "list_all (\<lambda>s. isNum (actualElapsed s)) (trialSegments st')"
    unfolding segs'' using d(3) by (rule allNum_update)
  have cur': "currentSegment st' = Some (cur\<lparr>actualElapsed := Num e\<rparr>)"
    using c by (simp add: currentSegment_def nthSegment_def idx' segs')
  have com: "committed st'" by (simp add: committed_def cur' el')
  have ty: "currentType st' = Some (segType cur)" by (simp add: currentType_def cur')
  have "accountedTime st' = Num (recordedSeconds (trialSegments st') + (e - e))"
    using accountedTime_Num [OF num' cur' el'] by simp
  also have "recordedSeconds (trialSegments st') =
               recordedSeconds (trialSegments st) - secondsOf (actualElapsed cur) + e"
    unfolding segs'' using recordedSeconds_update [OF c(2)] c(3) by simp
  finally have "accountedTime st' = accountedTime st"
    using accountedTime_Num [OF d(3) cur e] by simp
  then show ?thesis
    using tl num' cur' el' com ty d(5) flags prompts by (auto simp: runInvariant_def)
qed


lemma timeline_ends:
  assumes tl: "timelineOf cfg segs"
  shows "0 < length segs"
    and "\<not> isConditional (segs ! 0)"
    and "\<not> isConditional (segs ! (length segs - 1))"
    and "i < length segs \<Longrightarrow> (segType (segs ! i) = End) = (i = length segs - 1)"
proof -
  let ?T = "nat (plaintiffWitnessCount cfg) + nat (defenseWitnessCount cfg)"
  note len = timeline_length [OF tl]
  show 0: "0 < length segs" using len by simp
  have k0: "kindAt ?T 0 = Opening" by (simp add: kindAt_def)
  show "\<not> isConditional (segs ! 0)"
    using timeline_fields(4) [OF tl 0] k0 by simp
  have l: "length segs - 1 < length segs" using 0 by simp
  have kl: "kindAt ?T (length segs - 1) = End" using len by (simp add: kindAt_End)
  show "\<not> isConditional (segs ! (length segs - 1))"
    using timeline_fields(4) [OF tl l] kl by simp
  assume i: "i < length segs"
  show "(segType (segs ! i) = End) = (i = length segs - 1)"
    using timeline_fields(1) [OF tl i] i len by (auto simp: kindAt_End)
qed

lemma controlsShownD:
  assumes "controlsShown st"
  shows "\<not> showEditModal st" "\<not> showRedirectPrompt st" "\<not> showRecrossPrompt st"
    and "\<exists>cur. currentSegment st = Some cur \<and> segType cur \<noteq> End"
  using assms by (auto simp: controlsShown_def split: option.splits)

lemma inv_next:
  assumes inv: "runInvariant n st" and shown: "controlsShown st"
  shows "runInvariant n (moveToNextSegment st)"
proof -
  note d = runInvariantD [OF inv]
  note s = controlsShownD [OF shown]
  from s(4) obtain cur where cur: "currentSegment st = Some cur" and ne: "segType cur \<noteq> End" by blast
  from d(4) obtain e where e: "currentSegmentElapsed st = Num e" by blast
  note c = currentSegment_SomeD [OF cur]
  let ?segs = "trialSegments st" and ?idx = "currentSegmentIndex st"
  have save: "saveCurrentSegmentTime st = ?segs[nat ?idx := cur\<lparr>actualElapsed := Num e\<rparr>]"
    using save_effect [OF cur ne] c(3) e by simp
  show ?thesis
  proof (cases "redirectFollows st")
    case True
    then have ty: "segType cur = Cross" by (simp add: redirectFollows_def cur)
    have eq: "moveToNextSegment st =
                st\<lparr>isRunning := False, trialSegments := saveCurrentSegmentTime st,
                   showRedirectPrompt := True\<rparr>"
      using True by (simp add: moveToNextSegment_def Let_def)
    show ?thesis
      by (rule inv_prompt [OF inv cur e]) (simp_all add: eq save s ty e)
  next
    case nr: False
    show ?thesis
    proof (cases "recrossFollows st")
      case True
      then have ty: "segType cur = Redirect" by (simp add: recrossFollows_def cur)
      have eq: "moveToNextSegment st =
                  st\<lparr>isRunning := False, trialSegments := saveCurrentSegmentTime st,
                     showRecrossPrompt := True\<rparr>"
        using True nr by (simp add: moveToNextSegment_def Let_def)
      show ?thesis
        by (rule inv_prompt [OF inv cur e]) (simp_all add: eq save s ty e)
    next
      case False
      let ?next = "skipForward ?segs (currentSegment st) (?idx + 1)"
      note te = timeline_ends [OF d(1)]
      have notlast: "nat ?idx \<noteq> length ?segs - 1"
        using te(4) [OF c(2)] ne c(3) by simp
      have lo: "?idx + 1 \<le> ?next" by (rule skipForward_ge)
      have "?idx + 1 \<le> int (length ?segs - 1)" using c(1,2) notlast by linarith
      then have hi: "?next \<le> int (length ?segs - 1)"
        using te(1,3) by (intro skipForward_le) simp_all
      have j: "0 \<le> ?next" "nat ?next < length ?segs" "?next \<noteq> ?idx"
        using lo hi c(1) te(1) by linarith+
      have lt: "?next < int (length ?segs)" using hi te(1) by linarith
      have eq: "moveToNextSegment st =
                  st\<lparr>isRunning := False, trialSegments := saveCurrentSegmentTime st,
                     currentSegmentIndex := ?next,
                     currentSegmentElapsed := storedElapsedOrZero ?segs ?next\<rparr>"
        using False nr lt by (simp add: moveToNextSegment_def Let_def)
      show ?thesis
        by (rule inv_land [OF inv cur e j])
           (simp_all add: eq save s stored_Num(1) [OF d(3) j(1,2)])
    qed
  qed
qed

lemma inv_previous:
  assumes inv: "runInvariant n st" and shown: "controlsShown st"
    and notfirst: "currentSegmentIndex st \<noteq> 0"
  shows "runInvariant n (moveToPreviousSegment st)"
proof -
  note d = runInvariantD [OF inv]
  note s = controlsShownD [OF shown]
  from s(4) obtain cur where cur: "currentSegment st = Some cur" and ne: "segType cur \<noteq> End" by blast
  from d(4) obtain e where e: "currentSegmentElapsed st = Num e" by blast
  note c = currentSegment_SomeD [OF cur]
  let ?segs = "trialSegments st" and ?idx = "currentSegmentIndex st"
  have save: "saveCurrentSegmentTime st = ?segs[nat ?idx := cur\<lparr>actualElapsed := Num e\<rparr>]"
    using save_effect [OF cur ne] c(3) e by simp
  let ?prev = "skipBackward ?segs (currentSegment st) (?idx - 1)"
  note te = timeline_ends [OF d(1)]
  have pos: "0 < ?idx" using c(1) notfirst by simp
  have hi: "?prev \<le> ?idx - 1" by (rule skipBackward_le)
  have "int 0 \<le> ?idx - 1" using pos by simp
  then have "int 0 \<le> ?prev" using te(1,2) by (rule skipBackward_ge)
  then have lo: "0 \<le> ?prev" by simp
  have j: "0 \<le> ?prev" "nat ?prev < length ?segs" "?prev \<noteq> ?idx"
    using lo hi c(2) by linarith+
  have eq: "moveToPreviousSegment st =
              st\<lparr>isRunning := False, trialSegments := saveCurrentSegmentTime st,
                 currentSegmentIndex := ?prev,
                 currentSegmentElapsed := storedElapsedOrZero ?segs ?prev\<rparr>"
    using pos by (simp add: moveToPreviousSegment_def Let_def)
  show ?thesis
    by (rule inv_land [OF inv cur e j])
       (simp_all add: eq save s stored_Num(1) [OF d(3) j(1,2)])
qed

lemma promptD:
  assumes "committed st" and "currentType st = Some t"
  obtains cur where "currentSegment st = Some cur" "segType cur = t"
    "actualElapsed cur = currentSegmentElapsed st"
  using assms by (auto simp: committed_def currentType_def split: option.splits)

lemma inv_answer_redirect:
  assumes inv: "runInvariant n st" and prompt: "showRedirectPrompt st"
  shows "runInvariant n (handleRedirectDecisionPrompt yes st)"
proof -
  note d = runInvariantD [OF inv]
  from d(7) [OF prompt] have p: "\<not> isRunning st" "committed st" "\<not> showRecrossPrompt st"
    "currentType st = Some Cross" by simp_all
  from p(2,4) obtain cur where cur: "currentSegment st = Some cur" and ty: "segType cur = Cross"
    and com: "actualElapsed cur = currentSegmentElapsed st" by (rule promptD)
  from d(4) obtain e where e: "currentSegmentElapsed st = Num e" by blast
  note c = currentSegment_SomeD [OF cur]
  let ?segs = "trialSegments st" and ?idx = "currentSegmentIndex st"
  let ?cfg = "trialConfig st"
  let ?T = "nat (plaintiffWitnessCount ?cfg) + nat (defenseWitnessCount ?cfg)"
  have len: "length ?segs = 6 + 4 * ?T" using timeline_length [OF d(1)] by simp
  have k: "kindAt ?T (nat ?idx) = Cross"
    using timeline_fields(1) [OF d(1) c(2)] c(3) ty by simp
  note nx = kindAt_Cross_next [OF k]
  have same: "?segs[nat ?idx := cur\<lparr>actualElapsed := Num e\<rparr>] = ?segs"
    using list_update_committed [OF cur] com e by simp
  show ?thesis
  proof (cases yes)
    case True
    have j: "0 \<le> ?idx + 1" "nat (?idx + 1) < length ?segs" "?idx + 1 \<noteq> ?idx"
      using c(1) nx(1) len by simp_all
    show ?thesis
      by (rule inv_land [OF inv cur e j])
         (simp_all add: handleRedirectDecisionPrompt_def True d(6) p(3) same
            stored_Num(1) [OF d(3) j(1,2)])
  next
    case False
    have j: "0 \<le> ?idx + 3" "nat (?idx + 3) < length ?segs" "?idx + 3 \<noteq> ?idx"
      using c(1) nx(1) len by simp_all
    have n3: "nat (?idx + 3) = nat ?idx + 3" using c(1) by simp
    have "segType (?segs ! nat (?idx + 3)) = kindAt ?T (nat ?idx + 3)"
      using timeline_fields(1) [OF d(1) j(2)] n3 by simp
    with nx(2) have t: "segType (?segs ! nat (?idx + 3)) \<noteq> Redirect"
      "segType (?segs ! nat (?idx + 3)) \<noteq> Recross" by auto
    have nth: "nthSegment ?segs (?idx + 3) = Some (?segs ! nat (?idx + 3))"
      using j(1,2) by (simp add: nthSegment_def)
    have ms: "markSkipped (\<lambda>t. t = Redirect \<or> t = Recross) ?segs (currentSegment st) (?idx + 3) ?segs
                = (?segs, ?idx + 3)"
      by (subst markSkipped.simps) (simp add: nth t)
    show ?thesis
      by (rule inv_land [OF inv cur e j])
         (simp_all add: handleRedirectDecisionPrompt_def False ms d(6) p(3) same
            stored_Num(1) [OF d(3) j(1,2)])
  qed
qed

lemma inv_answer_recross:
  assumes inv: "runInvariant n st" and prompt: "showRecrossPrompt st"
  shows "runInvariant n (handleRecrossDecisionPrompt yes st)"
proof -
  note d = runInvariantD [OF inv]
  from d(8) [OF prompt] have p: "\<not> isRunning st" "committed st" "currentType st = Some Redirect"
    by simp_all
  have nored: "\<not> showRedirectPrompt st" using d(7) prompt by blast
  from p(2,3) obtain cur where cur: "currentSegment st = Some cur" and ty: "segType cur = Redirect"
    and com: "actualElapsed cur = currentSegmentElapsed st" by (rule promptD)
  from d(4) obtain e where e: "currentSegmentElapsed st = Num e" by blast
  note c = currentSegment_SomeD [OF cur]
  let ?segs = "trialSegments st" and ?idx = "currentSegmentIndex st"
  let ?cfg = "trialConfig st"
  let ?P = "nat (plaintiffWitnessCount ?cfg)" and ?D = "nat (defenseWitnessCount ?cfg)"
  have len: "length ?segs = 6 + 4 * (?P + ?D)" using timeline_length [OF d(1)] by simp
  have k: "kindAt (?P + ?D) (nat ?idx) = Redirect"
    using timeline_fields(1) [OF d(1) c(2)] c(3) ty by simp
  note nx = kindAt_Redirect_next [OF k]
  have same: "?segs[nat ?idx := cur\<lparr>actualElapsed := Num e\<rparr>] = ?segs"
    using list_update_committed [OF cur] com e by simp
  have j: "0 \<le> ?idx + 1" "nat (?idx + 1) < length ?segs" "?idx + 1 \<noteq> ?idx"
    using c(1) nx(1) len by simp_all
  show ?thesis
  proof (cases yes)
    case True
    show ?thesis
      by (rule inv_land [OF inv cur e j])
         (simp_all add: handleRecrossDecisionPrompt_def True d(6) nored same
            stored_Num(1) [OF d(3) j(1,2)])
  next
    case False
    have n1: "nat (?idx + 1) = nat ?idx + 1" using c(1) by simp
    have "side (?segs ! nat (?idx + 1)) = sideAt ?P ?D (nat ?idx + 1)"
      using timeline_fields(2) [OF d(1) j(2)] n1 by simp
    moreover have "side cur = sideAt ?P ?D (nat ?idx)"
      using timeline_fields(2) [OF d(1) c(2)] c(3) by simp
    ultimately have t: "side (?segs ! nat (?idx + 1)) \<noteq> sideOf (currentSegment st)"
      using nx(3) by (simp add: sideOf_def cur)
    have nth: "nthSegment ?segs (?idx + 1) = Some (?segs ! nat (?idx + 1))"
      using j(1,2) by (simp add: nthSegment_def)
    have ms: "markSkipped (\<lambda>t. t = Recross) ?segs (currentSegment st) (?idx + 1) ?segs
                = (?segs, ?idx + 1)"
      by (subst markSkipped.simps) (simp add: nth t)
    show ?thesis
      by (rule inv_land [OF inv cur e j])
         (simp_all add: handleRecrossDecisionPrompt_def False ms d(6) nored same
            stored_Num(1) [OF d(3) j(1,2)])
  qed
qed

lemma inv_tick:
  assumes inv: "runInvariant n st" and run: "isRunning st"
  shows "runInvariant (Suc n) (handleTimerTick st)"
proof -
  note d = runInvariantD [OF inv]
  from d(2) obtain cur where cur: "currentSegment st = Some cur" by blast
  from d(4) obtain e where e: "currentSegmentElapsed st = Num e" by blast
  have np: "\<not> showRedirectPrompt st" "\<not> showRecrossPrompt st"
    using d(7,8) run by blast+
  let ?st' = "handleTimerTick st"
  have cur': "currentSegment ?st' = Some cur"
    using cur by (simp add: currentSegment_def handleTimerTick_def)
  have el': "currentSegmentElapsed ?st' = Num (e + 1)"
    by (simp add: handleTimerTick_def e)
  have segs': "trialSegments ?st' = trialSegments st" by (simp add: handleTimerTick_def)
  have num': "list_all (\<lambda>s. isNum (actualElapsed s)) (trialSegments ?st')"
    using d(3) by (simp add: segs')
  have "accountedTime ?st' =
          Num (recordedSeconds (trialSegments st) + (e + 1 - secondsOf (actualElapsed cur)))"
    using accountedTime_Num [OF num' cur' el'] by (simp add: segs')
  moreover have "Num (int n) =
          Num (recordedSeconds (trialSegments st) + (e - secondsOf (actualElapsed cur)))"
    using accountedTime_Num [OF d(3) cur e] d(5) by simp
  ultimately have "accountedTime ?st' = Num (int (Suc n))" by simp
  then show ?thesis
    using d(1,6) num' cur' el' np
    by (simp add: runInvariant_def) (simp add: handleTimerTick_def)
qed

lemma running_frame:
  "currentSegment (st\<lparr>isRunning := b\<rparr>) = currentSegment st"
  "accountedTime (st\<lparr>isRunning := b\<rparr>) = accountedTime st"
  by (simp_all add: accountedTime_def recordedTotal_def uncommittedElapsed_def currentSegment_def
        split: option.splits)

lemma inv_toggle:
  assumes inv: "runInvariant n st" and shown: "controlsShown st"
  shows "runInvariant n (toggleTimer st)"
proof -
  note s = controlsShownD [OF shown]
  have "runInvariant n (st\<lparr>isRunning := b\<rparr>)" for b
    using inv s(2,3) by (simp add: runInvariant_def running_frame)
  then show ?thesis using inv by (simp add: toggleTimer_def)
qed

lemma inv_interact:
  assumes "runInvariant n st"
  shows "runInvariant (n + (if e = Tick \<and> isRunning st then 1 else 0)) (interact e st)"
proof (cases e)
  case Tick
  then show ?thesis using assms inv_tick [OF assms] by (simp add: interact_def)
next
  case StartPause
  then show ?thesis using assms inv_toggle [OF assms] by (simp add: interact_def)
next
  case Next
  then show ?thesis using assms inv_next [OF assms] by (simp add: interact_def)
next
  case Previous
  then show ?thesis using assms inv_previous [OF assms] by (simp add: interact_def)
next
  case (AnswerRedirect yes)
  then show ?thesis using assms inv_answer_redirect [OF assms] by (simp add: interact_def)
next
  case (AnswerRecross yes)
  then show ?thesis using assms inv_answer_recross [OF assms] by (simp add: interact_def)
qed

lemma inv_run:
  "runInvariant n st \<Longrightarrow>
   runInvariant (n + ticksDelivered interact evs st) (fold interact evs st)"
proof (induction evs arbitrary: n st)
  case Nil
  then show ?case by simp
next
  case (Cons e evs)
  from Cons.IH [OF inv_interact [OF Cons.prems, of e]] show ?case
    by (simp add: add.assoc)
qed

lemma recordedSeconds_zero:
  "list_all (\<lambda>s. actualElapsed s = Num 0) segs \<Longrightarrow> recordedSeconds segs = 0"
  by (induction segs) (simp_all add: recordedSeconds_def)

lemma generate_fresh:
  "list_all (\<lambda>s. actualElapsed s = Num 0) (generateAllTrialSegments cfg)"
  by (simp add: generate_tabulate list_all_iff generatedAt_actualElapsed del: upt_Suc)

lemma inv_start: "runInvariant 0 (startTrial (initialState\<lparr>trialConfig := cfg\<rparr>))"
proof -
  let ?st = "startTrial (initialState\<lparr>trialConfig := cfg\<rparr>)"
  have segs: "trialSegments ?st = generateAllTrialSegments cfg"
    and cfg: "trialConfig ?st = cfg"
    and idx: "currentSegmentIndex ?st = 0"
    and el: "currentSegmentElapsed ?st = Num 0"
    and flags: "\<not> showEditModal ?st" "\<not> showRedirectPrompt ?st" "\<not> showRecrossPrompt ?st"
    by (simp_all add: startTrial_def initialState_def)
  have tl: "timelineOf (trialConfig ?st) (trialSegments ?st)"
    unfolding segs cfg by (rule timeline_generate)
  have pos: "0 < length (generateAllTrialSegments cfg)" by (simp add: length_generate)
  have cur: "currentSegment ?st = Some (generateAllTrialSegments cfg ! 0)"
    using pos by (simp add: currentSegment_def nthSegment_def segs idx)
  have z: "list_all (\<lambda>s. actualElapsed s = Num 0) (trialSegments ?st)"
    unfolding segs by (rule generate_fresh)
  then have num: "list_all (\<lambda>s. isNum (actualElapsed s)) (trialSegments ?st)"
    by (simp add: list_all_iff)
  have a0: "actualElapsed (generateAllTrialSegments cfg ! 0) = Num 0"
    using generate_fresh [of cfg] pos by (simp add: list_all_length)
  have "accountedTime ?st = Num (int 0)"
    using accountedTime_Num [OF num cur el] recordedSeconds_zero [OF z] a0 by simp
  then show ?thesis
    using tl cur num el flags by (simp add: runInvariant_def)
qed

section \<open>Edits keep the times valid\<close>

lemma timeline_elapsed_only:
  assumes tl: "timelineOf cfg segs" and len: "length segs' = length segs"
    and el: "\<And>j. j < length segs \<Longrightarrow> \<exists>v. segs' ! j = (segs ! j)\<lparr>actualElapsed := v\<rparr>"
  shows "timelineOf cfg segs'"
proof -
  have "map (\<lambda>s. s\<lparr>actualElapsed := Num 0\<rparr>) segs' = map (\<lambda>s. s\<lparr>actualElapsed := Num 0\<rparr>) segs"
  proof (rule nth_equalityI)
    show "length (map (\<lambda>s. s\<lparr>actualElapsed := Num 0\<rparr>) segs')
            = length (map (\<lambda>s. s\<lparr>actualElapsed := Num 0\<rparr>) segs)"
      using len by simp
    fix j assume "j < length (map (\<lambda>s. s\<lparr>actualElapsed := Num 0\<rparr>) segs')"
    then have j: "j < length segs" using len by simp
    from el [OF j] obtain v where "segs' ! j = (segs ! j)\<lparr>actualElapsed := v\<rparr>" by blast
    then show "map (\<lambda>s. s\<lparr>actualElapsed := Num 0\<rparr>) segs' ! j
                 = map (\<lambda>s. s\<lparr>actualElapsed := Num 0\<rparr>) segs ! j"
      using j len by simp
  qed
  then show ?thesis using tl by (simp add: timelineOf_def)
qed

lemma budgetKeyOf_elapsed_update: "budgetKeyOf (s\<lparr>actualElapsed := v\<rparr>) = budgetKeyOf s"
  by (simp add: budgetKeyOf_def contributes_elapsed_update)

lemma budgetKeyOf_plaintiffQuad:
  assumes "r < 4"
  shows "budgetKeyOf (plaintiffQuad k w ! r) \<noteq> None"
  using assms
  by (cases rule: less_four_cases)
     (simp_all add: plaintiffQuad_def examSegment_def budgetKeyOf_def
        doesSegmentContributeToBudget_def)

lemma budgetKeyOf_defenseQuad:
  assumes "r < 4"
  shows "budgetKeyOf (defenseQuad k w ! r) \<noteq> None"
  using assms
  by (cases rule: less_four_cases)
     (simp_all add: defenseQuad_def examSegment_def budgetKeyOf_def
        doesSegmentContributeToBudget_def)

lemma budgetKeyOf_generatedAt:
  assumes "2 \<le> i" and "i < 2 + 4 * nat (plaintiffWitnessCount cfg) + 4 * nat (defenseWitnessCount cfg)"
  shows "budgetKeyOf (generatedAt cfg i) \<noteq> None"
proof (cases "i < 2 + 4 * nat (plaintiffWitnessCount cfg)")
  case True
  have "generatedAt cfg i =
          plaintiffQuad (int (i - (i - 2) mod 4)) (int ((i - 2) div 4)) ! ((i - 2) mod 4)"
    using assms(1) True by (simp add: generatedAt_def Let_def)
  then show ?thesis using budgetKeyOf_plaintiffQuad [OF mod4_less] by simp
next
  case False
  have "generatedAt cfg i =
          defenseQuad (int (i - (i - 2) mod 4))
            (int ((i - 2 - 4 * nat (plaintiffWitnessCount cfg)) div 4)) ! ((i - 2) mod 4)"
    using assms False by (simp add: generatedAt_def Let_def)
  then show ?thesis using budgetKeyOf_defenseQuad [OF mod4_less] by simp
qed

text \<open>The durations of a timeline, and the budget of an examination segment.\<close>

lemma timeline_duration:
  assumes tl: "timelineOf cfg segs" and i: "i < length segs"
  shows "duration (segs ! i) = PosInfinity \<or> (\<exists>d. duration (segs ! i) = Num d)"
    and "duration (segs ! i) = PosInfinity \<Longrightarrow> segType (segs ! i) \<noteq> Rebuttal \<Longrightarrow>
           budgetKeyOf (segs ! i) \<noteq> None \<and>
           i < 2 + 4 * nat (plaintiffWitnessCount cfg) + 4 * nat (defenseWitnessCount cfg)"
proof -
  let ?P = "nat (plaintiffWitnessCount cfg)" and ?D = "nat (defenseWitnessCount cfg)"
  note f = timeline_fields [OF tl i]
  show "duration (segs ! i) = PosInfinity \<or> (\<exists>d. duration (segs ! i) = Num d)"
    unfolding f(6) generatedAt_duration Let_def by simp
  assume inf: "duration (segs ! i) = PosInfinity" and nr: "segType (segs ! i) \<noteq> Rebuttal"
  from nr have n4: "i \<noteq> 4 + 4 * (?P + ?D)"
    unfolding f(1) by (simp add: kindAt_Rebuttal)
  from inf have z: "2 \<le> i \<and> i < 2 + 4 * ?P + 4 * ?D"
    unfolding f(6) generatedAt_duration Let_def using n4 by (simp split: if_splits)
  have "budgetKeyOf (segs ! i) = budgetKeyOf ((segs ! i)\<lparr>actualElapsed := Num 0\<rparr>)"
    by (simp add: budgetKeyOf_elapsed_update)
  also have "\<dots> = budgetKeyOf (generatedAt cfg i)"
    by (simp only: timeline_nth [OF tl i])
  finally show "budgetKeyOf (segs ! i) \<noteq> None \<and> i < 2 + 4 * ?P + 4 * ?D"
    using budgetKeyOf_generatedAt [of i cfg] z by simp
qed

lemma timeline_before_exam:
  assumes tl: "timelineOf cfg segs"
    and i: "i < 2 + 4 * nat (plaintiffWitnessCount cfg) + 4 * nat (defenseWitnessCount cfg)"
    and j: "j < i"
  shows "j < length segs" and "segType (segs ! j) \<noteq> Rebuttal"
proof -
  show l: "j < length segs" using timeline_length [OF tl] i j by simp
  show "segType (segs ! j) \<noteq> Rebuttal"
    unfolding timeline_fields(1) [OF tl l] using i j by (simp add: kindAt_Rebuttal)
qed

lemma setElapsedOfFirst_ids:
  assumes "\<And>j. j < length segs \<Longrightarrow> segId (segs ! j) = k + int j" and "i < length segs"
  shows "setElapsedOfFirst (k + int i) v segs = segs[i := (segs ! i)\<lparr>actualElapsed := v\<rparr>]"
  using assms
proof (induction segs arbitrary: k i)
  case Nil
  then show ?case by simp
next
  case (Cons s segs)
  have s: "segId s = k" using Cons.prems(1) [of 0] by simp
  show ?case
  proof (cases i)
    case 0
    then show ?thesis using s by simp
  next
    case (Suc m)
    have ids: "\<And>j. j < length segs \<Longrightarrow> segId (segs ! j) = (k + 1) + int j"
      using Cons.prems(1) [of "Suc _"] by simp
    have m: "m < length segs" using Cons.prems(2) Suc by simp
    have "setElapsedOfFirst ((k + 1) + int m) v segs = segs[m := (segs ! m)\<lparr>actualElapsed := v\<rparr>]"
      using ids m by (rule Cons.IH)
    moreover have "k + int i = (k + 1) + int m" using Suc by simp
    ultimately show ?thesis using s Suc by (simp add: add.assoc)
  qed
qed

lemma timeline_setElapsedOfFirst:
  assumes tl: "timelineOf cfg segs" and i: "i < length segs"
  shows "setElapsedOfFirst (segId (segs ! i)) v segs = segs[i := (segs ! i)\<lparr>actualElapsed := v\<rparr>]"
proof -
  have "setElapsedOfFirst (0 + int i) v segs = segs[i := (segs ! i)\<lparr>actualElapsed := v\<rparr>]"
    using timeline_fields(5) [OF tl] i by (intro setElapsedOfFirst_ids) simp_all
  then show ?thesis using timeline_fields(5) [OF tl i] by simp
qed


lemma fixed_final_elapsed:
  assumes "dur = PosInfinity \<or> (\<exists>d. dur = Num d)"
  shows "nonNegative (jmax (Num 0) (jmin (jsub dur (Num r)) dur))"
    and "dur \<noteq> PosInfinity \<Longrightarrow> isNum (jmax (Num 0) (jmin (jsub dur (Num r)) dur))"
  using assms by (auto simp: jsub_def jmin_def jmax_def)

lemma offered_edit_cases:
  assumes "context \<in> set (segmentEditContexts st @ remainingEditContexts st)"
  obtains (segment) seg where "context = SegmentEdit seg"
  | (budget) cur shown where "currentSegment st = Some cur" and "duration cur = PosInfinity"
      and "segType cur \<noteq> Rebuttal"
      and "context = BudgetEdit (budgetKeyOf cur)
             (case budgetKeyOf cur of None \<Rightarrow> Num 0 | Some k \<Rightarrow> usedBeforeCurrent k st) shown"
  | (fixed) cur shown where "currentSegment st = Some cur"
      and "context = FixedRemainingEdit cur shown"
      and "duration cur = PosInfinity \<longrightarrow> segType cur = Rebuttal"
proof -
  from assms consider "context \<in> set (segmentEditContexts st)"
    | "context \<in> set (remainingEditContexts st)" by auto
  then show thesis
  proof cases
    case 1
    then obtain seg where "context = SegmentEdit seg"
      by (auto simp: segmentEditContexts_def split: option.splits if_splits)
    then show thesis by (rule segment)
  next
    case 2
    then obtain cur where cur: "currentSegment st = Some cur"
      by (cases "currentSegment st") (simp_all add: remainingEditContexts_def)
    show thesis
    proof (cases "duration cur = PosInfinity \<and> segType cur \<noteq> Rebuttal")
      case True
      then have "context = BudgetEdit (budgetKeyOf cur)
             (case budgetKeyOf cur of None \<Rightarrow> Num 0 | Some k \<Rightarrow> usedBeforeCurrent k st)
             (totalBudget (displayRemainingTime st))"
        using 2 cur
        by (auto simp: remainingEditContexts_def displayRemainingTime_def Let_def
                 split: if_splits prod.splits)
      then show thesis using cur True by (intro budget) simp_all
    next
      case False
      then have "context = FixedRemainingEdit cur (totalBudget (displayRemainingTime st))"
        using 2 cur
        by (auto simp: remainingEditContexts_def displayRemainingTime_def Let_def
                 split: if_splits prod.splits)
      then show thesis using cur False by (intro fixed) auto
    qed
  qed
qed

lemma configuredBudget_Num: "\<exists>b. configuredBudget cfg (Some k) = Num b"
  by (cases k) (simp_all add: configuredBudget_def)

lemma editWith_segment:
  assumes "newTimeInSecondsFromModal (typeInto (SegmentEdit seg) m s st) = v"
  shows "trialSegments (editWith (SegmentEdit seg) m s st)
           = map (\<lambda>x. if segId x = segId seg then x\<lparr>actualElapsed := v\<rparr> else x)
               (trialSegments st)"
    and "currentSegmentElapsed (editWith (SegmentEdit seg) m s st) = v
         \<or> currentSegmentElapsed (editWith (SegmentEdit seg) m s st) = currentSegmentElapsed st"
    and "trialConfig (editWith (SegmentEdit seg) m s st) = trialConfig st"
  using assms
  by (simp_all add: editWith_def handleEditTimeSave_def handleEditTimeSaveIn_def runUpdater_def typeInto_fields closeEditModal_fields)

lemma editWith_fixed:
  assumes "newTimeInSecondsFromModal (typeInto (FixedRemainingEdit seg shown) m s st) = Num r"
  shows "trialSegments (editWith (FixedRemainingEdit seg shown) m s st)
           = setElapsedOfFirst (segId seg)
               (jmax (Num 0) (jmin (jsub (duration seg) (Num r)) (duration seg)))
               (trialSegments st)"
    and "currentSegmentElapsed (editWith (FixedRemainingEdit seg shown) m s st)
           = jmax (Num 0) (jmin (jsub (duration seg) (Num r)) (duration seg))"
    and "trialConfig (editWith (FixedRemainingEdit seg shown) m s st) = trialConfig st"
  using assms
  by (simp_all add: editWith_def handleEditTimeSave_def handleEditTimeSaveIn_def runUpdater_def typeInto_fields closeEditModal_fields
        Let_def)


lemma validTimesD:
  assumes "validTimes st" and "j < length (trialSegments st)"
  shows "nonNegative (actualElapsed (trialSegments st ! j))"
    and "segType (trialSegments st ! j) \<noteq> Rebuttal \<Longrightarrow> isNum (actualElapsed (trialSegments st ! j))"
  using assms by (simp_all add: validTimes_def list_all_length)

lemma validTimes_counter: "validTimes st \<Longrightarrow> nonNegative (currentSegmentElapsed st)"
  by (simp add: validTimes_def)

lemma validTimesI:
  assumes "\<And>j. j < length (trialSegments st) \<Longrightarrow>
             nonNegative (actualElapsed (trialSegments st ! j)) \<and>
             (segType (trialSegments st ! j) \<noteq> Rebuttal \<longrightarrow>
              isNum (actualElapsed (trialSegments st ! j)))"
    and "nonNegative (currentSegmentElapsed st)"
  shows "validTimes st"
  using assms by (simp add: validTimes_def list_all_length)

lemma segment_edit_valid:
  assumes tl: "timelineOf (trialConfig st) (trialSegments st)" and v: "validTimes st"
  shows "validTimes (editWith (SegmentEdit seg) m s st)"
    and "timelineOf (trialConfig (editWith (SegmentEdit seg) m s st))
           (trialSegments (editWith (SegmentEdit seg) m s st))"
proof -
  let ?st' = "editWith (SegmentEdit seg) m s st"
  obtain r where r: "0 \<le> r" "newTimeInSecondsFromModal (typeInto (SegmentEdit seg) m s st) = Num r"
    using typed_time by blast
  note e = editWith_segment [OF r(2)]
  show "validTimes ?st'"
  proof (rule validTimesI)
    fix j assume "j < length (trialSegments ?st')"
    then have j: "j < length (trialSegments st)" by (simp add: e(1))
    show "nonNegative (actualElapsed (trialSegments ?st' ! j)) \<and>
          (segType (trialSegments ?st' ! j) \<noteq> Rebuttal \<longrightarrow>
           isNum (actualElapsed (trialSegments ?st' ! j)))"
      using validTimesD(1,2) [OF v j] j r(1) by (simp add: e(1))
  next
    show "nonNegative (currentSegmentElapsed ?st')"
      using e(2) validTimes_counter [OF v] r(1) by auto
  qed
  show "timelineOf (trialConfig ?st') (trialSegments ?st')"
    unfolding e(3)
  proof (rule timeline_elapsed_only [OF tl])
    show "length (trialSegments ?st') = length (trialSegments st)" by (simp add: e(1))
    fix j assume j: "j < length (trialSegments st)"
    show "\<exists>v. trialSegments ?st' ! j = (trialSegments st ! j)\<lparr>actualElapsed := v\<rparr>"
    proof (cases "segId (trialSegments st ! j) = segId seg")
      case True
      then have "trialSegments ?st' ! j = (trialSegments st ! j)\<lparr>actualElapsed := Num r\<rparr>"
        using j by (simp add: e(1))
      then show ?thesis ..
    next
      case False
      then have "trialSegments ?st' ! j
                   = (trialSegments st ! j)\<lparr>actualElapsed := actualElapsed (trialSegments st ! j)\<rparr>"
        using j by (simp add: e(1))
      then show ?thesis ..
    qed
  qed
qed

lemma fixed_edit_valid:
  assumes tl: "timelineOf (trialConfig st) (trialSegments st)" and v: "validTimes st"
    and cur: "currentSegment st = Some cur"
    and reb: "duration cur = PosInfinity \<longrightarrow> segType cur = Rebuttal"
  shows "validTimes (editWith (FixedRemainingEdit cur shown) m s st)"
    and "timelineOf (trialConfig (editWith (FixedRemainingEdit cur shown) m s st))
           (trialSegments (editWith (FixedRemainingEdit cur shown) m s st))"
proof -
  let ?st' = "editWith (FixedRemainingEdit cur shown) m s st"
  let ?segs = "trialSegments st" and ?i = "nat (currentSegmentIndex st)"
  obtain r where r: "0 \<le> r"
      "newTimeInSecondsFromModal (typeInto (FixedRemainingEdit cur shown) m s st) = Num r"
    using typed_time by blast
  let ?v = "jmax (Num 0) (jmin (jsub (duration cur) (Num r)) (duration cur))"
  note e = editWith_fixed [OF r(2)]
  note c = currentSegment_SomeD [OF cur]
  have dur: "duration cur = PosInfinity \<or> (\<exists>d. duration cur = Num d)"
    unfolding c(3) by (rule timeline_duration(1) [OF tl c(2)])
  note f = fixed_final_elapsed [OF dur, of r]
  have segs': "trialSegments ?st' = ?segs[?i := (?segs ! ?i)\<lparr>actualElapsed := ?v\<rparr>]"
    unfolding e(1) using timeline_setElapsedOfFirst [OF tl c(2), of ?v] by (simp add: c(3) [symmetric])
  show "validTimes ?st'"
  proof (rule validTimesI)
    fix j assume "j < length (trialSegments ?st')"
    then have j: "j < length ?segs" by (simp add: segs')
    show "nonNegative (actualElapsed (trialSegments ?st' ! j)) \<and>
          (segType (trialSegments ?st' ! j) \<noteq> Rebuttal \<longrightarrow>
           isNum (actualElapsed (trialSegments ?st' ! j)))"
    proof (cases "j = ?i")
      case True
      then show ?thesis using j f reb by (auto simp: segs' c(3) [symmetric])
    next
      case False
      then show ?thesis using validTimesD(1,2) [OF v j] by (simp add: segs')
    qed
  next
    show "nonNegative (currentSegmentElapsed ?st')" unfolding e(2) by (rule f(1))
  qed
  show "timelineOf (trialConfig ?st') (trialSegments ?st')"
    unfolding e(3)
  proof (rule timeline_elapsed_only [OF tl])
    show "length (trialSegments ?st') = length ?segs" by (simp add: segs')
    fix j assume j: "j < length ?segs"
    show "\<exists>v. trialSegments ?st' ! j = (?segs ! j)\<lparr>actualElapsed := v\<rparr>"
    proof (cases "j = ?i")
      case True
      then have "trialSegments ?st' ! j = (?segs ! j)\<lparr>actualElapsed := ?v\<rparr>"
        using j by (simp add: segs')
      then show ?thesis ..
    next
      case False
      then have "trialSegments ?st' ! j
                   = (?segs ! j)\<lparr>actualElapsed := actualElapsed (?segs ! j)\<rparr>"
        by (simp add: segs')
      then show ?thesis ..
    qed
  qed
qed


lemma budget_edit_valid:
  assumes tl: "timelineOf (trialConfig st) (trialSegments st)" and v: "validTimes st"
    and cur: "currentSegment st = Some cur"
    and inf: "duration cur = PosInfinity" and nr: "segType cur \<noteq> Rebuttal"
    and ctx: "context = BudgetEdit (budgetKeyOf cur)
               (case budgetKeyOf cur of None \<Rightarrow> Num 0 | Some k \<Rightarrow> usedBeforeCurrent k st) shown"
  shows "validTimes (editWith context m s st)"
    and "timelineOf (trialConfig (editWith context m s st))
           (trialSegments (editWith context m s st))"
proof -
  let ?segs = "trialSegments st" and ?i = "nat (currentSegmentIndex st)"
  note c = currentSegment_SomeD [OF cur]
  from timeline_duration(2) [OF tl c(2)] inf nr
  have key: "budgetKeyOf cur \<noteq> None"
    and exam: "?i < 2 + 4 * nat (plaintiffWitnessCount (trialConfig st))
                     + 4 * nat (defenseWitnessCount (trialConfig st))"
    by (simp_all add: c(3) [symmetric])
  from key obtain k where k: "budgetKeyOf cur = Some k" by blast
  have fin: "\<forall>j < ?i. isNum (actualElapsed (?segs ! j))"
  proof (intro allI impI)
    fix j assume j: "j < ?i"
    from timeline_before_exam [OF tl exam j] validTimesD(2) [OF v]
    show "isNum (actualElapsed (?segs ! j))" by blast
  qed
  let ?U = "chargedBefore k ?i ?segs"
  have used: "usedBeforeCurrent k st = Num ?U"
    using fin c(1) by (intro usedBeforeCurrent_charged) simp
  have ctx': "context = BudgetEdit (Some k) (Num ?U) shown"
    unfolding ctx k by (simp add: used)
  let ?st' = "editWith (BudgetEdit (Some k) (Num ?U) shown) m s st"
  obtain r where r: "0 \<le> r"
      "newTimeInSecondsFromModal (typeInto (BudgetEdit (Some k) (Num ?U) shown) m s st) = Num r"
    using typed_time by blast
  obtain b where b: "configuredBudget (trialConfig st) (Some k) = Num b"
    using configuredBudget_Num by blast
  have idx: "currentSegmentIndex st - 1 = int ?i - 1" using c(1) by simp
  have "validTimes ?st' \<and> timelineOf (trialConfig st) (trialSegments ?st')"
  proof (cases "b - r - ?U < 0")
    case True
    let ?e = "- (b - r - ?U)"
    note u = editWith_budget_undo [OF r(2) b True, unfolded idx]
    have e0: "0 \<le> ?e" using True by simp
    have n: "?i \<le> length ?segs" using c(2) by simp
    from deductBackward_effect [OF n e0 fin, of k]
    have len: "length (trialSegments ?st') = length ?segs"
      and same: "\<And>j. ?i \<le> j \<Longrightarrow> trialSegments ?st' ! j = ?segs ! j"
      and less: "\<And>j. j < ?i \<Longrightarrow> \<exists>a a'. actualElapsed (?segs ! j) = Num a \<and>
                    trialSegments ?st' ! j = (?segs ! j)\<lparr>actualElapsed := Num a'\<rparr> \<and>
                    (a' = a \<or> (0 \<le> a' \<and> a' < a))"
      unfolding u(1) by blast+
    have "validTimes ?st'"
    proof (rule validTimesI)
      fix j assume "j < length (trialSegments ?st')"
      then have j: "j < length ?segs" by (simp add: len)
      show "nonNegative (actualElapsed (trialSegments ?st' ! j)) \<and>
            (segType (trialSegments ?st' ! j) \<noteq> Rebuttal \<longrightarrow>
             isNum (actualElapsed (trialSegments ?st' ! j)))"
      proof (cases "j < ?i")
        case True
        from less [OF True] obtain a a' where
          a: "actualElapsed (?segs ! j) = Num a"
             "trialSegments ?st' ! j = (?segs ! j)\<lparr>actualElapsed := Num a'\<rparr>"
             "a' = a \<or> (0 \<le> a' \<and> a' < a)"
          by blast
        have "0 \<le> a" using validTimesD(1) [OF v j] a(1) by simp
        then have "0 \<le> a'" using a(3) by auto
        then show ?thesis by (simp add: a(2))
      next
        case False
        then have "trialSegments ?st' ! j = ?segs ! j" by (intro same) simp
        then show ?thesis using validTimesD(1,2) [OF v j] by simp
      qed
    next
      show "nonNegative (currentSegmentElapsed ?st')" by (simp add: u(2))
    qed
    moreover have "timelineOf (trialConfig st) (trialSegments ?st')"
    proof (rule timeline_elapsed_only [OF tl len])
      fix j assume j: "j < length ?segs"
      show "\<exists>v. trialSegments ?st' ! j = (?segs ! j)\<lparr>actualElapsed := v\<rparr>"
      proof (cases "j < ?i")
        case True
        from less [OF True] show ?thesis by blast
      next
        case False
        then have "trialSegments ?st' ! j = ?segs ! j" by (intro same) simp
        then have "trialSegments ?st' ! j
                     = (?segs ! j)\<lparr>actualElapsed := actualElapsed (?segs ! j)\<rparr>"
          by simp
        then show ?thesis ..
      qed
    qed
    ultimately show ?thesis ..
  next
    case False
    then have le: "0 \<le> b - r - ?U" by simp
    note u = editWith_budget_fits [OF r(2) b le]
    have "validTimes ?st'"
    proof (rule validTimesI)
      fix j assume "j < length (trialSegments ?st')"
      then have j: "j < length ?segs" by (simp add: u(1))
      show "nonNegative (actualElapsed (trialSegments ?st' ! j)) \<and>
            (segType (trialSegments ?st' ! j) \<noteq> Rebuttal \<longrightarrow>
             isNum (actualElapsed (trialSegments ?st' ! j)))"
        using validTimesD(1,2) [OF v j] by (simp add: u(1))
    next
      show "nonNegative (currentSegmentElapsed ?st')" using le r(1) by (simp add: u(2))
    qed
    then show ?thesis using tl by (simp add: u(1))
  qed
  then show "validTimes (editWith context m s st)"
    and "timelineOf (trialConfig (editWith context m s st))
           (trialSegments (editWith context m s st))"
    unfolding ctx' by (simp_all add: editWith_budget_frame)
qed

text \<open>
  Whatever text is typed into the two fields, an edit the interface offers keeps every
  recorded time and the live counter free of negative values and of \<open>NaN\<close>, and keeps
  the segments other than the rebuttal on integers.
\<close>

lemma typed_edit_keeps_times_valid:
  assumes tl: "timelineOf (trialConfig st) (trialSegments st)"
    and v: "validTimes st"
    and ctx: "context \<in> set (segmentEditContexts st @ remainingEditContexts st)"
  shows "validTimes (editWith context minutes seconds st)"
    and "timelineOf (trialConfig (editWith context minutes seconds st))
           (trialSegments (editWith context minutes seconds st))"
proof -
  have "validTimes (editWith context minutes seconds st)
        \<and> timelineOf (trialConfig (editWith context minutes seconds st))
             (trialSegments (editWith context minutes seconds st))"
    using ctx
  proof (cases rule: offered_edit_cases)
    case (segment seg)
    show ?thesis unfolding segment using segment_edit_valid [OF tl v] by blast
  next
    case (budget cur shown)
    show ?thesis using budget_edit_valid [OF tl v budget] by blast
  next
    case (fixed cur shown)
    show ?thesis unfolding fixed(2) using fixed_edit_valid [OF tl v fixed(1,3)] by blast
  qed
  then show "validTimes (editWith context minutes seconds st)"
    and "timelineOf (trialConfig (editWith context minutes seconds st))
           (trialSegments (editWith context minutes seconds st))"
    by blast+
qed

section \<open>The budget edit in the two builds\<close>

text \<open>What one run of the backward walk leaves in the outer variable.\<close>

lemma deductBackward_leaves:
  assumes "n \<le> length segs" and "0 \<le> e"
    and "\<forall>j < n. isNum (actualElapsed (segs ! j))"
  shows "snd (deductBackward (Some key) (int n - 1) (Num e) segs)
           = Num (max 0 (e - chargedBefore key n segs))"
  using assms
proof (induction n arbitrary: e segs)
  case 0
  then show ?case by (simp add: deductBackward.simps chargedBefore_0)
next
  case (Suc n)
  have n: "n < length segs" using Suc.prems(1) by simp
  from Suc.prems(3) obtain a where a: "actualElapsed (segs ! n) = Num a"
    by (auto elim: isNumE)
  have nth: "nthSegment segs (int n) = Some (segs ! n)"
    using n by (simp add: nthSegment_def)
  have fin: "\<forall>j < n. isNum (actualElapsed (segs ! j))"
    using Suc.prems(3) by simp
  show ?case
  proof (cases "0 < e")
    case False
    then have e0: "e = 0" using Suc.prems(2) by simp
    show ?thesis
      using e0 chargedBefore_nonneg [of key "Suc n" segs] by (simp add: deductBackward.simps)
  next
    case True
    show ?thesis
    proof (cases "doesSegmentContributeToBudget (segs ! n) (Some key) \<and> 0 < a")
      case False
      have W: "deductBackward (Some key) (int (Suc n) - 1) (Num e) segs
                 = deductBackward (Some key) (int n - 1) (Num e) segs"
        using True False a nth by (subst deductBackward.simps) auto
      have c0: "chargedTo key (segs ! n) = 0" using False a by (auto simp: chargedTo_def)
      show ?thesis
        unfolding W using Suc.IH [OF less_imp_le [OF n] Suc.prems(2) fin] n c0
        by (simp add: chargedBefore_Suc)
    next
      case c: True
      let ?d = "min e a"
      let ?segs1 = "segs[n := (segs ! n)\<lparr>actualElapsed := Num (a - ?d)\<rparr>]"
      have W: "deductBackward (Some key) (int (Suc n) - 1) (Num e) segs
                 = deductBackward (Some key) (int n - 1) (Num (e - ?d)) ?segs1"
        using True c a nth
        by (subst deductBackward.simps) (simp add: Let_def jmin_Num jsub_Num)
      have fin1: "\<forall>j < n. isNum (actualElapsed (?segs1 ! j))"
        using fin by simp
      have n1: "n \<le> length ?segs1" using n by simp
      have e1: "0 \<le> e - ?d" by simp
      have cb: "chargedBefore key n ?segs1 = chargedBefore key n segs"
        by (rule chargedBefore_cong) simp_all
      have cn: "chargedTo key (segs ! n) = a" using c a by (simp add: chargedTo_def)
      show ?thesis
        unfolding W
        using Suc.IH [OF n1 e1 fin1] n cb cn chargedBefore_nonneg [of key n segs]
        by (simp add: chargedBefore_Suc)
    qed
  qed
qed

lemma deductBackward_nothing: "deductBackward key i (Num 0) segs = (segs, Num 0)"
  by (simp add: deductBackward.simps)

text \<open>
  Under \<open>StrictMode\<close> the first run of the walk uses the excess up as far as the recorded
  usage allows and the second run, whose result is kept, starts from what is left.  When
  the usage covers the excess nothing is left, and the kept result is the previous array.
\<close>

lemma strict_run_deducts_nothing:
  assumes "n \<le> length segs" and "0 \<le> e"
    and "\<forall>j < n. isNum (actualElapsed (segs ! j))"
    and "e \<le> chargedBefore key n segs"
  shows "runUpdater StrictDevelopment (deductBackward (Some key) (int n - 1)) (Num e) segs = segs"
  using deductBackward_leaves [OF assms(1,2,3), of key] assms(4)
  by (simp add: runUpdater_def deductBackward_nothing)

text \<open>The segment edit and the fixed remaining edit are the same in both builds.\<close>

lemma editWithIn_segment: "editWithIn b (SegmentEdit seg) m s st = editWith (SegmentEdit seg) m s st"
  by (simp add: editWithIn_def editWith_def handleEditTimeSave_def handleEditTimeSaveIn_def
        typeInto_fields)

lemma editWithIn_fixed:
  "editWithIn b (FixedRemainingEdit seg shown) m s st = editWith (FixedRemainingEdit seg shown) m s st"
  by (simp add: editWithIn_def editWith_def handleEditTimeSave_def handleEditTimeSaveIn_def
        typeInto_fields)

lemma editWithIn_Production: "editWithIn Production c m s st = editWith c m s st"
  by (simp add: editWithIn_def editWith_def handleEditTimeSave_def)

lemma editWithIn_budget_undo:
  assumes "newTimeInSecondsFromModal (typeInto (BudgetEdit (Some key) (Num U) shown) m s st) = Num r"
    and "configuredBudget (trialConfig st) (Some key) = Num budget"
    and "budget - r - U < 0"
  shows "trialSegments (editWithIn b (BudgetEdit (Some key) (Num U) shown) m s st)
           = runUpdater b (deductBackward (Some key) (currentSegmentIndex st - 1))
               (Num (- (budget - r - U))) (trialSegments st)"
    and "currentSegmentElapsed (editWithIn b (BudgetEdit (Some key) (Num U) shown) m s st) = Num 0"
    and "currentSegmentIndex (editWithIn b (BudgetEdit (Some key) (Num U) shown) m s st)
           = currentSegmentIndex st"
    and "trialConfig (editWithIn b (BudgetEdit (Some key) (Num U) shown) m s st) = trialConfig st"
  using assms
  by (simp_all add: editWithIn_def handleEditTimeSaveIn_def typeInto_fields closeEditModal_fields
        Let_def jsub_Num)

text \<open>
  A remaining edit of a budget that asks for more remaining time than the earlier usage
  leaves, in a development build under \<open>StrictMode\<close>: the counter is set to \<open>0\<close> and no
  earlier segment is reduced, so the usage before the cursor plus the counter stays what
  the earlier segments recorded, whatever remaining time was asked for.
\<close>

lemma strict_budget_edit_result:
  assumes ctx: "remainingEditContexts st = [BudgetEdit (Some key) used shown]"
    and fin: "\<forall>j < nat (currentSegmentIndex st). isNum (actualElapsed (trialSegments st ! j))"
    and r: "newTimeInSecondsFromModal (typeInto (BudgetEdit (Some key) used shown) minutes seconds st)
              = Num r"
    and tot: "configuredBudget (trialConfig st) (Some key) = Num budget"
    and le: "r \<le> budget"
    and undo: "budget - r < chargedBefore key (nat (currentSegmentIndex st)) (trialSegments st)"
    and st': "st' = editWithIn StrictDevelopment (BudgetEdit (Some key) used shown) minutes seconds st"
  shows "trialSegments st' = trialSegments st"
    and "currentSegmentElapsed st' = Num 0"
    and "jadd (usedBeforeCurrent key st') (currentSegmentElapsed st')
           = Num (chargedBefore key (nat (currentSegmentIndex st)) (trialSegments st))"
proof -
  let ?segs = "trialSegments st" and ?n = "nat (currentSegmentIndex st)"
  let ?U = "chargedBefore key ?n ?segs"
  from remainingEdit_budgetD [OF ctx] obtain cur where
    cur: "currentSegment st = Some cur" and used: "used = usedBeforeCurrent key st"
    by blast
  note c = currentSegment_SomeD [OF cur]
  have usedU: "used = Num ?U"
    unfolding used using fin c(1) by (intro usedBeforeCurrent_charged) simp
  note r' = r [unfolded usedU]
  note st'' = st' [unfolded usedU]
  have idx: "currentSegmentIndex st - 1 = int ?n - 1" using c(1) by simp
  have neg: "budget - r - ?U < 0" using undo by simp
  note u = editWithIn_budget_undo [OF r' tot neg, of StrictDevelopment, folded st'', unfolded idx]
  have nle: "?n \<le> length ?segs" using c(2) by simp
  have e0: "0 \<le> - (budget - r - ?U)" using neg by simp
  have eU: "- (budget - r - ?U) \<le> ?U" using le by simp
  show segs: "trialSegments st' = trialSegments st"
    unfolding u(1) by (rule strict_run_deducts_nothing [OF nle e0 fin eU])
  show zero: "currentSegmentElapsed st' = Num 0" by (rule u(2))
  have fin': "\<And>j. j < length (trialSegments st') \<Longrightarrow> int j < currentSegmentIndex st' \<Longrightarrow>
                isNum (actualElapsed (trialSegments st' ! j))"
    using fin c(1) by (simp add: segs u(3))
  have "usedBeforeCurrent key st' = Num ?U"
    using usedBeforeCurrent_charged [of st' key, OF fin'] by (simp add: segs u(3))
  then show "jadd (usedBeforeCurrent key st') (currentSegmentElapsed st') = Num ?U"
    by (simp add: zero)
qed

text \<open>
  A remaining edit of the budget \<open>key\<close> the active segment draws from, in a production
  build, with a desired remaining time \<open>r\<close> that does not exceed the configured total:
  afterwards the time charged to the budget before the active segment, recomputed, plus
  the live counter is the configured total minus \<open>r\<close>; the configuration is unchanged; and
  every segment is either unchanged or has had its recorded time reduced to a value that
  is not negative.
\<close>

lemma production_budget_edit_conserves:
  assumes "remainingEditContexts st = [BudgetEdit (Some key) used shown]"
    and "list_all (\<lambda>s. isNum (actualElapsed s))
           (take (nat (currentSegmentIndex st)) (trialSegments st))"
    and "newTimeInSecondsFromModal (typeInto (BudgetEdit (Some key) used shown) minutes seconds st)
           = Num r"
    and "configuredBudget (trialConfig st) (Some key) = Num budget"
    and "r \<le> budget"
    and "st' = editWith (BudgetEdit (Some key) used shown) minutes seconds st"
  shows "jadd (usedBeforeCurrent key st') (currentSegmentElapsed st') = Num (budget - r)
       \<and> 0 \<le> r
       \<and> trialConfig st' = trialConfig st
       \<and> currentSegmentIndex st' = currentSegmentIndex st
       \<and> length (trialSegments st') = length (trialSegments st)
       \<and> (\<forall>j < length (trialSegments st).
             trialSegments st' ! j = trialSegments st ! j \<or>
             (\<exists>a a'. actualElapsed (trialSegments st ! j) = Num a \<and>
                      trialSegments st' ! j = (trialSegments st ! j)\<lparr>actualElapsed := Num a'\<rparr> \<and>
                      0 \<le> a' \<and> a' < a))"
proof -
  from remainingEdit_budgetD(1) [OF assms(1)] obtain cur where "currentSegment st = Some cur"
    by blast
  then have "nat (currentSegmentIndex st) \<le> length (trialSegments st)"
    using currentSegment_SomeD(2) by fastforce
  with assms(2) have fin:
    "\<forall>j < nat (currentSegmentIndex st). isNum (actualElapsed (trialSegments st ! j))"
    by (rule list_all_take_nth)
  have "0 \<le> r"
    using typed_time [of "BudgetEdit (Some key) used shown" minutes seconds st] assms(3) by auto
  moreover have "trialConfig st' = trialConfig st" "currentSegmentIndex st' = currentSegmentIndex st"
    unfolding assms(6) by (rule editWith_budget_frame)+
  ultimately show ?thesis
    using budget_edit_result [OF assms(1) fin assms(3,4,5,6)] by blast
qed

section \<open>The claims\<close>

text \<open>
  Claim C1.  For witness counts \<open>p\<close> and \<open>d\<close> that are not negative the generator
  produces \<open>2 + 4p + 4d + 2 + 1 + 1\<close> segments; exactly one of them has type \<open>end\<close>, it is
  the last one, its duration is \<open>0\<close> and it is not conditional.
\<close>

theorem generate_count_and_end:
  assumes "0 \<le> plaintiffWitnessCount cfg" and "0 \<le> defenseWitnessCount cfg"
  shows "int (length (generateAllTrialSegments cfg)) =
           2 + 4 * plaintiffWitnessCount cfg + 4 * defenseWitnessCount cfg + 2 + 1 + 1
         \<and> length (filter (\<lambda>s. segType s = End) (generateAllTrialSegments cfg)) = 1
         \<and> segType (last (generateAllTrialSegments cfg)) = End
         \<and> duration (last (generateAllTrialSegments cfg)) = Num 0
         \<and> \<not> isConditional (last (generateAllTrialSegments cfg))"
proof -
  have "int (length (generateAllTrialSegments cfg)) =
          2 + 4 * plaintiffWitnessCount cfg + 4 * defenseWitnessCount cfg + 2 + 1 + 1"
    using assms by (simp add: length_generate)
  with generate_ends [of cfg] show ?thesis by blast
qed

theorem generate_count_and_end_witness:
  "0 \<le> plaintiffWitnessCount defaultConfig \<and> 0 \<le> defenseWitnessCount defaultConfig
   \<and> int (length (generateAllTrialSegments defaultConfig)) = 30
   \<and> length (filter (\<lambda>s. segType s = End) (generateAllTrialSegments defaultConfig)) = 1
   \<and> segType (last (generateAllTrialSegments defaultConfig)) = End
   \<and> duration (last (generateAllTrialSegments defaultConfig)) = Num 0
   \<and> \<not> isConditional (last (generateAllTrialSegments defaultConfig))"
proof -
  have p: "0 \<le> plaintiffWitnessCount defaultConfig" and d: "0 \<le> defenseWitnessCount defaultConfig"
    by (simp_all add: defaultConfig_def)
  have "2 + 4 * plaintiffWitnessCount defaultConfig + 4 * defenseWitnessCount defaultConfig
          + 2 + 1 + 1 = 30"
    by (simp add: defaultConfig_def)
  with generate_count_and_end [OF p d] p d show ?thesis by simp
qed

text \<open>
  Claim C2, as the generator has it.  The four segments of plaintiff witness \<open>i\<close> are, in
  order, the plaintiff's direct, the defense's cross, the plaintiff's redirect and the
  defense's recross; those of defense witness \<open>j\<close> are the same with the sides swapped; and
  a segment is conditional exactly when it is a redirect or a recross.
\<close>

theorem witness_quadruples:
  "(0 \<le> i \<and> i < plaintiffWitnessCount cfg \<longrightarrow>
      map (\<lambda>s. (segType s, side s, witnessIndex s, isConditional s))
          (take 4 (drop (nat (2 + 4 * i)) (generateAllTrialSegments cfg)))
        = [(Direct, Some Plaintiff, Some i, False), (Cross, Some Defense, Some i, False),
           (Redirect, Some Plaintiff, Some i, True), (Recross, Some Defense, Some i, True)])
   \<and> (0 \<le> j \<and> j < defenseWitnessCount cfg \<longrightarrow>
      map (\<lambda>s. (segType s, side s, witnessIndex s, isConditional s))
          (take 4 (drop (2 + 4 * nat (plaintiffWitnessCount cfg) + 4 * nat j)
                        (generateAllTrialSegments cfg)))
        = [(Direct, Some Defense, Some j, False), (Cross, Some Plaintiff, Some j, False),
           (Redirect, Some Defense, Some j, True), (Recross, Some Plaintiff, Some j, True)])
   \<and> (\<forall>s \<in> set (generateAllTrialSegments cfg).
         isConditional s \<longleftrightarrow> (segType s = Redirect \<or> segType s = Recross))"
proof (intro conjI impI)
  assume a: "0 \<le> i \<and> i < plaintiffWitnessCount cfg"
  then have n: "nat i < nat (plaintiffWitnessCount cfg)" and e: "nat (2 + 4 * i) = 2 + 4 * nat i"
    and b: "int (nat i) = i"
    by linarith+
  show "map (\<lambda>s. (segType s, side s, witnessIndex s, isConditional s))
          (take 4 (drop (nat (2 + 4 * i)) (generateAllTrialSegments cfg)))
        = [(Direct, Some Plaintiff, Some i, False), (Cross, Some Defense, Some i, False),
           (Redirect, Some Plaintiff, Some i, True), (Recross, Some Defense, Some i, True)]"
    unfolding e plaintiff_quadruple [OF n] b
    by (simp add: plaintiffQuad_def examSegment_def)
next
  assume a: "0 \<le> j \<and> j < defenseWitnessCount cfg"
  then have n: "nat j < nat (defenseWitnessCount cfg)" and b: "int (nat j) = j"
    by simp_all
  show "map (\<lambda>s. (segType s, side s, witnessIndex s, isConditional s))
          (take 4 (drop (2 + 4 * nat (plaintiffWitnessCount cfg) + 4 * nat j)
                        (generateAllTrialSegments cfg)))
        = [(Direct, Some Defense, Some j, False), (Cross, Some Plaintiff, Some j, False),
           (Redirect, Some Defense, Some j, True), (Recross, Some Plaintiff, Some j, True)]"
    unfolding defense_quadruple [OF n] b
    by (simp add: defenseQuad_def examSegment_def)
next
  show "\<forall>s \<in> set (generateAllTrialSegments cfg).
         isConditional s \<longleftrightarrow> (segType s = Redirect \<or> segType s = Recross)"
    by (rule generate_conditional_iff)
qed

theorem witness_quadruples_witness:
  "map (\<lambda>s. (segType s, side s, witnessIndex s, isConditional s))
       (take 4 (drop 2 (generateAllTrialSegments defaultConfig)))
     = [(Direct, Some Plaintiff, Some 0, False), (Cross, Some Defense, Some 0, False),
        (Redirect, Some Plaintiff, Some 0, True), (Recross, Some Defense, Some 0, True)]
   \<and> map (\<lambda>s. (segType s, side s, witnessIndex s, isConditional s))
       (take 4 (drop 18 (generateAllTrialSegments defaultConfig)))
     = [(Direct, Some Defense, Some 1, False), (Cross, Some Plaintiff, Some 1, False),
        (Redirect, Some Defense, Some 1, True), (Recross, Some Plaintiff, Some 1, True)]"
proof -
  have p: "0 \<le> (0::int) \<and> 0 < plaintiffWitnessCount defaultConfig"
    and d: "0 \<le> (1::int) \<and> 1 < defenseWitnessCount defaultConfig"
    and o1: "nat (2 + 4 * 0) = 2"
    and o2: "2 + 4 * nat (plaintiffWitnessCount defaultConfig) + 4 * nat 1 = 18"
    by (simp_all add: defaultConfig_def)
  from witness_quadruples [of 0 defaultConfig 1] p d show ?thesis
    unfolding o1 o2 by blast
qed

theorem spec_quadruple_counterexample:
  "map (\<lambda>s. (segType s, side s, isConditional s))
       (take 4 (drop 2 (generateAllTrialSegments defaultConfig)))
     \<noteq> [(Direct, Some Plaintiff, False), (Cross, Some Defense, False),
         (Redirect, Some Defense, True), (Recross, Some Plaintiff, True)]"
proof -
  have "(0::nat) < nat (plaintiffWitnessCount defaultConfig)"
    by (simp add: defaultConfig_def)
  from plaintiff_quadruple [OF this] show ?thesis
    by (simp add: plaintiffQuad_def examSegment_def)
qed

text \<open>
  Claim C3.  In a timeline whose active segment is the rebuttal, the allotment of
  \<open>displayRemainingTime\<close> is \<open>max(0, min(rebuttal cap, plaintiff closing duration - used))\<close>,
  where \<open>used\<close> is the recorded time of the plaintiff's closing, and the remaining time
  and the overtime of a live counter \<open>e\<close> are computed from that allotment.
\<close>

theorem rebuttal_allotment:
  assumes "timelineOf (trialConfig st) (trialSegments st)"
    and "currentSegment st = Some cur" and "segType cur = Rebuttal"
    and "pc \<in> set (trialSegments st)" and "segType pc = Closing" and "side pc = Some Plaintiff"
    and "actualElapsed pc = Num used"
    and "currentSegmentElapsed st = Num e"
    and "allotment = max 0 (min (maxRebuttalDuration (trialConfig st))
                                (pClosingDuration (trialConfig st) - used))"
  shows "totalBudget (displayRemainingTime st) = Num allotment
         \<and> remainingValue (displayRemainingTime st) = Num (max 0 (allotment - e))
         \<and> overtime (displayRemainingTime st) = Num (max 0 (e - allotment))"
proof -
  let ?cfg = "trialConfig st" and ?segs = "trialSegments st"
  let ?P = "nat (plaintiffWitnessCount ?cfg)" and ?D = "nat (defenseWitnessCount ?cfg)"
  note tl = assms(1)
  note cur = currentSegment_SomeD [OF assms(2)]
  have "kindAt (?P + ?D) (nat (currentSegmentIndex st)) = Rebuttal"
    using timeline_fields(1) [OF tl cur(2)] cur(3) assms(3) by simp
  then have idx: "nat (currentSegmentIndex st) = 4 + 4 * ?P + 4 * ?D"
    by (simp add: kindAt_Rebuttal)
  have dur: "duration cur = PosInfinity"
    using timeline_fields(6) [OF tl cur(2)] cur(3) idx
    by (simp add: generatedAt_duration Let_def)
  have "pc = ?segs ! (2 + 4 * ?P + 4 * ?D)"
    using assms(4,5,6) by (rule timeline_plaintiff_closing(2) [OF tl])
  then have "find (\<lambda>s. segType s = Closing \<and> side s = Some Plaintiff) ?segs = Some pc"
    using timeline_plaintiff_closing(1) [OF tl] by simp
  then have rb: "rebuttalBudget st = Num allotment"
    using assms(7,9) by (simp add: rebuttalBudget_def Let_def jsub_Num jmin_Num jmax_Num)
  have m: "max 0 (- (allotment - e)) = max 0 (e - allotment)" by simp
  show ?thesis
    using assms(2,3,8) dur rb
    by (simp add: displayRemainingTime_def Let_def jsub_Num splitOvertime_Num m)
qed

theorem rebuttal_allotment_witness:
  "timelineOf (trialConfig atRebuttal) (trialSegments atRebuttal)
   \<and> currentSegment atRebuttal = Some (trialSegments atRebuttal ! 8)
   \<and> segType (trialSegments atRebuttal ! 8) = Rebuttal
   \<and> segType (trialSegments atRebuttal ! 6) = Closing
   \<and> side (trialSegments atRebuttal ! 6) = Some Plaintiff
   \<and> actualElapsed (trialSegments atRebuttal ! 6) = Num 300
   \<and> pClosingDuration (trialConfig atRebuttal) = 420
   \<and> maxRebuttalDuration (trialConfig atRebuttal) = 180
   \<and> totalBudget (displayRemainingTime atRebuttal) = Num 120
   \<and> remainingValue (displayRemainingTime atRebuttal) = Num 120
   \<and> overtime (displayRemainingTime atRebuttal) = Num 0"
proof -
  have h1: "timelineOf (trialConfig atRebuttal) (trialSegments atRebuttal)" by code_simp
  have h2: "currentSegment atRebuttal = Some (trialSegments atRebuttal ! 8)" by code_simp
  have h3: "segType (trialSegments atRebuttal ! 8) = Rebuttal" by code_simp
  have h4: "trialSegments atRebuttal ! 6 \<in> set (trialSegments atRebuttal)" by code_simp
  have h5: "segType (trialSegments atRebuttal ! 6) = Closing" by code_simp
  have h6: "side (trialSegments atRebuttal ! 6) = Some Plaintiff" by code_simp
  have h7: "actualElapsed (trialSegments atRebuttal ! 6) = Num 300" by code_simp
  have h8: "currentSegmentElapsed atRebuttal = Num 0" by code_simp
  have c1: "pClosingDuration (trialConfig atRebuttal) = 420" by code_simp
  have c2: "maxRebuttalDuration (trialConfig atRebuttal) = 180" by code_simp
  have h9: "(120::int) = max 0 (min (maxRebuttalDuration (trialConfig atRebuttal))
                                (pClosingDuration (trialConfig atRebuttal) - 300))"
    by (simp add: c1 c2)
  from rebuttal_allotment [OF h1 h2 h3 h4 h5 h6 h7 h8 h9] h1 h2 h3 h5 h6 h7 c1 c2
  show ?thesis by simp
qed

text \<open>
  Claim C4 (the code departs from it).  The function the budget branch of
  \<open>handleEditTimeSave\<close> passes to \<open>setTrialSegments\<close> uses up \<open>excessToRemove\<close>, a variable
  declared outside it.  The plaintiff's direct has recorded 3 seconds, the redirect is
  active with the counter at 0, and the remaining time of the direct budget of 1500 is
  set to 24:59, so two seconds are to be taken back.  One run of the function reduces the
  direct to 1 and leaves 0 in the variable.  A production build runs it once, and usage
  plus counter is 1, the budget minus the desired remaining time.  A development build
  under \<open>StrictMode\<close> runs it twice and keeps the second result, which deducts nothing:
  the direct keeps its 3 seconds and usage plus counter is 3.
\<close>

theorem strict_mode_budget_edit_deducts_nothing:
  "remainingEditContexts atRedirect = [BudgetEdit (Some POverallDirectDuration) (Num 3) (Num 1500)]
   \<and> currentSegmentIndex atRedirect = 4
   \<and> currentSegmentElapsed atRedirect = Num 0
   \<and> map actualElapsed (trialSegments atRedirect)
       = [Num 0, Num 0, Num 3, Num 0, Num 0, Num 0, Num 0, Num 0, Num 0, Num 0]
   \<and> configuredBudget (trialConfig atRedirect) (Some POverallDirectDuration) = Num 1500
   \<and> newTimeInSecondsFromModal
        (typeInto (hd (remainingEditContexts atRedirect)) ''24'' ''59'' atRedirect) = Num 1499
   \<and> map actualElapsed
        (fst (deductBackward (Some POverallDirectDuration) 3 (Num 2) (trialSegments atRedirect)))
       = [Num 0, Num 0, Num 1, Num 0, Num 0, Num 0, Num 0, Num 0, Num 0, Num 0]
   \<and> snd (deductBackward (Some POverallDirectDuration) 3 (Num 2) (trialSegments atRedirect))
       = Num 0
   \<and> map actualElapsed (trialSegments (budgetRemainingSaved Production))
       = [Num 0, Num 0, Num 1, Num 0, Num 0, Num 0, Num 0, Num 0, Num 0, Num 0]
   \<and> jadd (usedBeforeCurrent POverallDirectDuration (budgetRemainingSaved Production))
           (currentSegmentElapsed (budgetRemainingSaved Production)) = Num 1
   \<and> map actualElapsed (trialSegments (budgetRemainingSaved StrictDevelopment))
       = [Num 0, Num 0, Num 3, Num 0, Num 0, Num 0, Num 0, Num 0, Num 0, Num 0]
   \<and> currentSegmentElapsed (budgetRemainingSaved StrictDevelopment) = Num 0
   \<and> jadd (usedBeforeCurrent POverallDirectDuration (budgetRemainingSaved StrictDevelopment))
           (currentSegmentElapsed (budgetRemainingSaved StrictDevelopment)) = Num 3"
  by code_simp

text \<open>
  Claim C5 (the code departs from it).  The active segment is the rebuttal, the plaintiff's
  closing has recorded 300 of its 420 seconds and the cap is 180, so the allotment is 120.
  The remaining edit the interface offers carries that allotment, but
  \<open>handleEditTimeSave\<close> computes from the segment's own duration, \<open>Infinity\<close>: with a desired
  remaining time of one minute the live counter and the record become \<open>Infinity\<close>, not 60.
\<close>

theorem rebuttal_remaining_edit_stores_infinity:
  "currentSegmentIndex atRebuttal = 8
   \<and> segType (trialSegments atRebuttal ! 8) = Rebuttal
   \<and> remainingEditContexts atRebuttal = [FixedRemainingEdit (trialSegments atRebuttal ! 8) (Num 120)]
   \<and> newTimeInSecondsFromModal
        (typeInto (FixedRemainingEdit (trialSegments atRebuttal ! 8) (Num 120)) ''1'' ''0'' atRebuttal)
       = Num 60
   \<and> currentSegmentElapsed
        (editWith (FixedRemainingEdit (trialSegments atRebuttal ! 8) (Num 120)) ''1'' ''0'' atRebuttal)
       = PosInfinity
   \<and> actualElapsed
        (trialSegments
           (editWith (FixedRemainingEdit (trialSegments atRebuttal ! 8) (Num 120)) ''1'' ''0''
              atRebuttal) ! 8)
       = PosInfinity"
  by code_simp

text \<open>
  Claim C6 (the code departs from it).  The redirect prompt of the witness is pending and
  the redirect has recorded two seconds on an earlier visit.  Answering No moves the cursor
  to the plaintiff's closing, the first segment after the pair, but the loop that marks
  the skipped segments starts there, past the pair, and the redirect keeps its two seconds.
\<close>

theorem redirect_no_keeps_recorded_time:
  "showRedirectPrompt redirectPromptRevisited
   \<and> currentSegmentIndex redirectPromptRevisited = 3
   \<and> map segType (trialSegments redirectPromptRevisited)
       = [Opening, Opening, Direct, Cross, Redirect, Recross, Closing, Closing, Rebuttal, End]
   \<and> map actualElapsed (trialSegments redirectPromptRevisited)
       = [Num 0, Num 0, Num 0, Num 0, Num 2, Num 0, Num 0, Num 0, Num 0, Num 0]
   \<and> interact (AnswerRedirect False) redirectPromptRevisited
       = handleRedirectDecisionPrompt False redirectPromptRevisited
   \<and> map actualElapsed (trialSegments (handleRedirectDecisionPrompt False redirectPromptRevisited))
       = [Num 0, Num 0, Num 0, Num 0, Num 2, Num 0, Num 0, Num 0, Num 0, Num 0]
   \<and> currentSegmentIndex (handleRedirectDecisionPrompt False redirectPromptRevisited) = 6"
  by code_simp

text \<open>
  Claim C7 (the code departs from it).  The recross prompt is pending at the redirect, and
  the recross has recorded one second on an earlier visit.  The loop of the No answer
  compares the side of the recross with the side of the redirect, which differ, so it
  marks nothing: the cursor lands on the recross itself and its second stays recorded.
\<close>

theorem recross_no_lands_on_recross:
  "showRecrossPrompt recrossPromptRevisited
   \<and> currentSegmentIndex recrossPromptRevisited = 4
   \<and> map segType (trialSegments recrossPromptRevisited)
       = [Opening, Opening, Direct, Cross, Redirect, Recross, Closing, Closing, Rebuttal, End]
   \<and> map actualElapsed (trialSegments recrossPromptRevisited)
       = [Num 0, Num 0, Num 0, Num 0, Num 0, Num 1, Num 0, Num 0, Num 0, Num 0]
   \<and> interact (AnswerRecross False) recrossPromptRevisited
       = handleRecrossDecisionPrompt False recrossPromptRevisited
   \<and> map actualElapsed (trialSegments (handleRecrossDecisionPrompt False recrossPromptRevisited))
       = [Num 0, Num 0, Num 0, Num 0, Num 0, Num 1, Num 0, Num 0, Num 0, Num 0]
   \<and> currentSegmentIndex (handleRecrossDecisionPrompt False recrossPromptRevisited) = 5
   \<and> currentSegmentElapsed (handleRecrossDecisionPrompt False recrossPromptRevisited) = Num 1"
  by code_simp

text \<open>
  Claim C8, as the code has it.  Along every run of events the interface offers (ticks
  while running, Start/Pause, Next, Previous, which is disabled at the first segment, and
  the answers to a pending prompt), from a freshly generated timeline of any
  configuration, the recorded times of all segments plus the part of the live counter
  not yet committed equal the number of ticks delivered while running.
\<close>

theorem ticks_accounted:
  "accountedTime (fold interact evs (startTrial (initialState\<lparr>trialConfig := cfg\<rparr>)))
     = Num (int (ticksDelivered interact evs (startTrial (initialState\<lparr>trialConfig := cfg\<rparr>))))"
  using runInvariantD(5) [OF inv_run [OF inv_start, of evs cfg]] by simp

text \<open>
  The claim fails for \<open>moveToPreviousSegment\<close> at the first segment, which commits the
  counter and then sets it to \<open>0\<close>: the next commit overwrites what was recorded.  Two
  ticks, Previous, one more tick and Next leave one second accounted for three ticks.
\<close>

theorem retreat_at_first_segment_loses_ticks:
  "ticksDelivered perform retreatRun smallTrial = 3
   \<and> accountedTime (fold perform retreatRun smallTrial) = Num 1
   \<and> jadd (recordedTotal (fold perform retreatRun smallTrial))
           (currentSegmentElapsed (fold perform retreatRun smallTrial)) = Num 1"
  by code_simp

text \<open>
  Claim C9 (the code departs from it).  The inputs of the modal clamp what is typed, but
  \<open>handleEditTimeSave\<close> parses the two fields as they stand, and \<open>openEditModal\<close> fills
  them from the time being edited without a clamp.  With the rebuttal active and every
  time a non-negative integer, the remaining edit of the rebuttal leaves \<open>Infinity\<close> on the
  live counter; "Edit Current Time" then opens with \<open>NaN\<close> in the seconds field, and
  saving after typing 1 into the minutes field alone stores \<open>NaN\<close> as the live counter
  and as the rebuttal's recorded time.  Text typed into both fields is clamped whatever
  it is (lemma \<open>typed_edit_keeps_times_valid\<close>).
\<close>

theorem untouched_seconds_field_stores_nan:
  "map actualElapsed (trialSegments atRebuttal)
     = [Num 0, Num 0, Num 0, Num 0, Num 0, Num 0, Num 300, Num 0, Num 0, Num 0]
   \<and> currentSegmentElapsed atRebuttal = Num 0
   \<and> currentSegmentIndex rebuttalRemainingSaved = 8
   \<and> take 1 (segmentEditContexts rebuttalRemainingSaved)
       = [SegmentEdit (trialSegments rebuttalRemainingSaved ! 8)]
   \<and> editTimeSeconds
        (openEditModal (SegmentEdit (trialSegments rebuttalRemainingSaved ! 8))
           rebuttalRemainingSaved) = NaN
   \<and> editTimeMinutes
        (changeEditTimeMinutes ''1''
           (openEditModal (SegmentEdit (trialSegments rebuttalRemainingSaved ! 8))
              rebuttalRemainingSaved)) = Num 1
   \<and> currentSegmentElapsed minutesOnlySaved = NaN
   \<and> actualElapsed (trialSegments minutesOnlySaved ! 8) = NaN"
  by code_simp

text \<open>
  Claim C10 (the code departs from it).  The opening is active with two seconds recorded
  and three on the live counter, and the summary lists it.  Jumping to it commits the
  three seconds, but the counter is loaded from the segment list of the handler's render,
  which still holds the two: the counter falls back to the value before the commit.
\<close>

theorem jump_to_active_loads_stale_time:
  "currentSegmentIndex resumedOpening = 0
   \<and> currentSegmentElapsed resumedOpening = Num 3
   \<and> actualElapsed (trialSegments resumedOpening ! 0) = Num 2
   \<and> listedForPlaintiff (trialSegments resumedOpening ! 0)
   \<and> segId (trialSegments resumedOpening ! 0) = 0
   \<and> currentSegmentIndex (goToSegmentFromSummary 0 resumedOpening) = 0
   \<and> actualElapsed (trialSegments (goToSegmentFromSummary 0 resumedOpening) ! 0) = Num 3
   \<and> currentSegmentElapsed (goToSegmentFromSummary 0 resumedOpening) = Num 2"
  by code_simp


end
